theory Spec2Isabelle
  imports Complex_Main
begin

section \<open>Values of the interpreter (struct Obj)\<close>

text \<open>
  An \<open>Obj *\<close> of eval.c is a value of type \<open>obj\<close>: \<open>Null\<close> is the C NULL pointer, every
  other constructor is a pointer to an object with the tag given below. \<open>NilCell\<close> is the
  object the global \<open>nil\<close> points to, a cons cell whose car and cdr are both NULL; a list
  ends in a cell whose car is NULL (every list walk of eval.c tests \<open>p && p->car\<close>), and
  such a terminating cell need not be \<open>nil\<close> itself, which is why \<open>o->cdr == nil\<close>
  (pointer identity, in the quote branch) is \<open>cdr = NilCell\<close> here while \<open>Cell Null Null\<close>
  is any other empty cell. Environments are mutable and shared, so an environment object
  is an address into the heap of the state.

  Tags: \<open>NilCell\<close>, \<open>Cell\<close> 'C'; \<open>IntV\<close> 'I'; \<open>FloatV\<close> 'V'; \<open>StrV\<close> 'S'; \<open>Sym\<close> 'Y';
  \<open>Keyword\<close> 'K'; \<open>EnvV\<close> 'E'; \<open>Lambda\<close> 'L' and \<open>Macro\<close> 'M' (params, body, env, code);
  \<open>Primop\<close> 'P' (the native function, as an index into the world's primitives);
  \<open>Foreign\<close> 'F' (cif present, funptr or NULL, arg_types, return_type); \<open>PtrV\<close> 'Q'.
\<close>

type_synonym addr = nat

datatype obj =
    Null
  | NilCell
  | Cell obj obj
  | IntV int
  | FloatV real
  | StrV string
  | Sym string
  | Keyword string
  | EnvV addr
  | Lambda obj obj addr obj
  | Macro obj obj addr obj
  | Primop nat
  | Foreign bool "nat option" obj obj
  | PtrV nat
  | BoolV bool

text \<open>Modelled from the spec: the Bool variant and its two shared singletons \<open>lisp_true\<close>
  and \<open>lisp_false\<close> are declared outside eval.c; the spec's data model gives a Bool variant
  with payload true/false.\<close>

definition lisp_true :: obj where
  "lisp_true = BoolV True"

definition lisp_false :: obj where
  "lisp_false = BoolV False"

text \<open>Modelled from the spec: the global \<open>nil\<close> is declared outside eval.c; the spec calls
  it the shared Nil singleton, the empty list. eval.c reads its car (\<open>!pair->car\<close> in the
  reset! branch) and pushes a list with a NULL car as "nil, empty list", so it is an empty
  cell.\<close>

definition nil :: obj where
  "nil = NilCell"

text \<open>Modelled from the spec: the globals \<open>lisp_quote\<close>, \<open>ampersand\<close> and the foreign type
  tags are declared outside eval.c; the spec calls them the symbol \<open>quote\<close>, the special
  symbol \<open>&\<close> and the symbols \<open>int\<close>, \<open>float\<close>, \<open>string\<close>, \<open>bool\<close>, \<open>void\<close>. For \<open>type_ptr\<close> the
  spec writes the type \<open>(ptr T)\<close>; the argument path of apply compares the head of such a
  type with the keyword \<open>ptr\<close>, which is taken for \<open>type_ptr\<close> too.\<close>

definition lisp_quote :: obj where
  "lisp_quote = Sym ''quote''"

definition ampersand :: obj where
  "ampersand = Sym ''&''"

definition type_int :: obj where
  "type_int = Sym ''int''"

definition type_float :: obj where
  "type_float = Sym ''float''"

definition type_string :: obj where
  "type_string = Sym ''string''"

definition type_bool :: obj where
  "type_bool = Sym ''bool''"

definition type_void :: obj where
  "type_void = Sym ''void''"

definition type_ptr :: obj where
  "type_ptr = Keyword ''ptr''"

section \<open>Outcomes\<close>

text \<open>
  A C function of eval.c either returns, or the process stops: \<open>exit(1)\<close> on overflow of
  the value stack or of the call trace, \<open>assert(false)\<close> on underflow, a failed \<open>assert\<close>,
  or a read through NULL or of a field the object's tag does not have (\<open>BadAccess\<close>). The
  evaluator may also run forever; the model counts fuel and \<open>Timeout\<close> is running out of it.
\<close>

datatype fatal = StackOverflow | StackUnderflow | TraceOverflow | AssertionFailed | BadAccess

datatype 'a res = Timeout | Fatal fatal | Ok 'a

fun rbind :: "'a res \<Rightarrow> ('a \<Rightarrow> 'b res) \<Rightarrow> 'b res" where
  "rbind Timeout f = Timeout"
| "rbind (Fatal x) f = Fatal x"
| "rbind (Ok a) f = f a"

fun car :: "obj \<Rightarrow> obj res" where
  "car NilCell = Ok Null"
| "car (Cell a d) = Ok a"
| "car _ = Fatal BadAccess"

fun cdr :: "obj \<Rightarrow> obj res" where
  "cdr NilCell = Ok Null"
| "cdr (Cell a d) = Ok d"
| "cdr _ = Fatal BadAccess"

text \<open>The C condition \<open>p && p->car\<close>.\<close>

definition has_car :: "obj \<Rightarrow> bool res" where
  "has_car p = (if p = Null then Ok False else rbind (car p) (\<lambda>c. Ok (c \<noteq> Null)))"

definition is_cons :: "obj \<Rightarrow> bool" where
  "is_cons x = (case x of NilCell \<Rightarrow> True | Cell a d \<Rightarrow> True | _ \<Rightarrow> False)"

definition is_sym :: "obj \<Rightarrow> bool" where
  "is_sym x = (case x of Sym s \<Rightarrow> True | _ \<Rightarrow> False)"

section \<open>The interpreter's globals\<close>

text \<open>
  An error message is built by \<open>obj_new_string\<close> and \<open>obj_string_mut_append\<close> from literal
  text and from renderings \<open>obj_to_string(o)\<close>; the renderer is outside eval.c, so a message
  is kept as its fragments. The same holds for what \<open>printf\<close> writes. \<open>Truncated n fs\<close> is
  the first n bytes of the text of \<open>fs\<close>, what \<open>snprintf\<close> into a buffer of n + 1 bytes keeps.
\<close>

datatype fragment = Text string | Rendered obj | Truncated nat "fragment list"

record env_rec =
  bindings :: "(obj \<times> obj) list"
  parent :: "addr option"

text \<open>
  The process-wide cells: \<open>error\<close> (None is NULL), the value stack (the list holds
  \<open>stack[0..stack_pos-1]\<close>, top first, so \<open>stack_pos\<close> is its length), the call trace (one
  frame per \<open>function_trace_pos\<close>, each the form whose rendering, cut to the
  \<open>STACK_TRACE_LEN - 1 = 255\<close> bytes of a frame, the C stores), the heap of
  environment objects, the global environment and what was printed.
\<close>

record state =
  error :: "fragment list option"
  stack :: "obj list"
  function_trace :: "obj list"
  heap :: "env_rec list"
  global_env :: addr
  out :: "fragment list"

text \<open>
  What eval.c takes from outside and the model leaves open: the capacity \<open>STACK_SIZE\<close>
  (a macro of a header), the native code behind a Primop (a function of the argument
  array that returns an object and may latch an error) and the foreign call \<open>ffi_call\<close>,
  whose return slot can be read at each of the C types apply reads it at.
\<close>

datatype cval = CInt int | CFloat real | CStr string | CPtr nat

record ffi_ret =
  ret_int :: int
  ret_float :: real
  ret_str :: "string option"
  ret_ptr :: nat

record world =
  STACK_SIZE :: nat
  primop :: "nat \<Rightarrow> obj list \<Rightarrow> obj \<times> fragment list option"
  ffi_call :: "nat \<Rightarrow> cval list \<Rightarrow> ffi_ret"

type_synonym evaluator = "addr \<Rightarrow> obj \<Rightarrow> state \<Rightarrow> state res"

section \<open>Value stack\<close>

definition stack_push :: "world \<Rightarrow> obj \<Rightarrow> state \<Rightarrow> state res" where
  "stack_push w x st =
     (if length (stack st) \<ge> STACK_SIZE w then Fatal StackOverflow
      else Ok (st\<lparr>stack := x # stack st\<rparr>))"

definition stack_pop :: "state \<Rightarrow> (obj \<times> state) res" where
  "stack_pop st =
     (if error st \<noteq> None then Ok (nil, st)
      else case stack st of
             [] \<Rightarrow> Fatal StackUnderflow
           | x # rest \<Rightarrow> Ok (x, st\<lparr>stack := rest\<rparr>))"

section \<open>Collaborators outside eval.c\<close>

text \<open>Modelled from the spec: the macros \<open>set_error\<close> and \<open>assert_or_set_error\<close> of
  assertions.h are missing; the spec's error contract is that a handler which detects a
  problem sets the error cell (the message, with the rendering of the offending value,
  \<open>nil\<close> when that value is absent) and returns. \<open>set_error\<close> gives the state with the cell
  set; the caller in the model returns it.\<close>

definition set_error :: "string \<Rightarrow> obj \<Rightarrow> state \<Rightarrow> state" where
  "set_error message x st =
     st\<lparr>error := Some [Text message, Rendered (if x = Null then nil else x)]\<rparr>"

text \<open>Modelled from the spec: \<open>obj_eq\<close> is missing; the spec says deep structural equality,
  same variant with equal payloads, recursive on car and cdr. \<open>nil\<close> and any other empty
  cell are the same empty list.\<close>

fun canon :: "obj \<Rightarrow> obj" where
  "canon NilCell = Cell Null Null"
| "canon (Cell a d) = Cell (canon a) (canon d)"
| "canon (Lambda p b e c) = Lambda (canon p) (canon b) e (canon c)"
| "canon (Macro p b e c) = Macro (canon p) (canon b) e (canon c)"
| "canon (Foreign c f a r) = Foreign c f (canon a) (canon r)"
| "canon x = x"

definition obj_eq :: "obj \<Rightarrow> obj \<Rightarrow> bool" where
  "obj_eq a b = (canon a = canon b)"

text \<open>Modelled from the spec: \<open>is_true\<close> is missing; the spec says only Nil and False are
  falsy, where Nil is the empty list or an absent value.\<close>

definition is_Nil :: "obj \<Rightarrow> bool" where
  "is_Nil x = (x = Null \<or> x = NilCell \<or> x = Cell Null Null)"

definition is_true :: "obj \<Rightarrow> bool" where
  "is_true x = (\<not> is_Nil x \<and> x \<noteq> lisp_false)"

text \<open>Modelled from the spec: \<open>obj_new_environment\<close> (the spec's \<open>env_new(parent)\<close>) is
  missing; it allocates an environment with no bindings and the given parent.\<close>

definition obj_new_environment :: "addr option \<Rightarrow> state \<Rightarrow> addr \<times> state" where
  "obj_new_environment p st =
     (length (heap st), st\<lparr>heap := heap st @ [\<lparr>bindings = [], parent = p\<rparr>]\<rparr>)"

text \<open>Modelled from the spec: \<open>env_extend\<close> is missing; the spec says it prepends or appends
  a binding such that later lookups of the symbol in that environment find the value. The
  new binding is put in front and lookups read from the front.\<close>

definition env_extend :: "addr \<Rightarrow> obj \<Rightarrow> obj \<Rightarrow> state \<Rightarrow> state" where
  "env_extend a k v st =
     (if a < length (heap st)
      then st\<lparr>heap := (heap st)[a := (heap st ! a)\<lparr>bindings := (k, v) # bindings (heap st ! a)\<rparr>]\<rparr>
      else st)"

text \<open>Modelled from the spec: \<open>env_lookup_binding\<close> is missing; the spec says it gives the
  (key, value) pair or nil, and that the parent pointer defines the search order, leaf
  first. The pair is a shared cell that reset! writes to, so the model returns where it
  lives: the environment and the number of older bindings behind it, which stays the same
  when bindings are put in front. A chain of parents without a cycle visits at most
  \<open>length (heap st)\<close> environments, which bounds the walk.\<close>

fun find_binding :: "(obj \<times> obj) list \<Rightarrow> obj \<Rightarrow> nat option" where
  "find_binding [] k = None"
| "find_binding ((k', v) # bs) k = (if obj_eq k' k then Some (length bs) else find_binding bs k)"

fun env_find :: "nat \<Rightarrow> env_rec list \<Rightarrow> addr \<Rightarrow> obj \<Rightarrow> (addr \<times> nat) option" where
  "env_find 0 h a k = None"
| "env_find (Suc n) h a k =
     (if a < length h then
        (case find_binding (bindings (h ! a)) k of
           Some i \<Rightarrow> Some (a, i)
         | None \<Rightarrow> (case parent (h ! a) of None \<Rightarrow> None | Some p \<Rightarrow> env_find n h p k))
      else None)"

definition env_lookup_binding :: "state \<Rightarrow> addr \<Rightarrow> obj \<Rightarrow> (addr \<times> nat) option" where
  "env_lookup_binding st a k = env_find (length (heap st)) (heap st) a k"

text \<open>The binding cell at a place, as the object \<open>pair\<close> of the C code; no place is \<open>nil\<close>.\<close>

definition binding_at :: "state \<Rightarrow> (addr \<times> nat) option \<Rightarrow> obj" where
  "binding_at st loc =
     (case loc of
        None \<Rightarrow> nil
      | Some (a, i) \<Rightarrow>
          (let bs = bindings (heap st ! a); kv = bs ! (length bs - Suc i)
           in Cell (fst kv) (snd kv)))"

text \<open>The assignment \<open>pair->cdr = v\<close> for the pair at a place.\<close>

definition set_binding :: "addr \<times> nat \<Rightarrow> obj \<Rightarrow> state \<Rightarrow> state" where
  "set_binding loc v st =
     (case loc of (a, i) \<Rightarrow>
        (let bs = bindings (heap st ! a); j = length bs - Suc i
         in st\<lparr>heap := (heap st)[a := (heap st ! a)\<lparr>bindings := bs[j := (fst (bs ! j), v)]\<rparr>]\<rparr>))"

text \<open>Modelled from the spec: \<open>env_lookup\<close> is missing; the spec says it gives the value or
  absent (NULL) and walks the parent chain.\<close>

definition env_lookup :: "state \<Rightarrow> addr \<Rightarrow> obj \<Rightarrow> obj" where
  "env_lookup st a k =
     (case env_lookup_binding st a k of
        None \<Rightarrow> Null
      | Some loc \<Rightarrow> (case binding_at st (Some loc) of Cell k' v \<Rightarrow> v | _ \<Rightarrow> Null))"

text \<open>Modelled from the spec: \<open>global_env_extend\<close> is missing; the spec says it targets the
  root environment specifically.\<close>

definition global_env_extend :: "obj \<Rightarrow> obj \<Rightarrow> state \<Rightarrow> state" where
  "global_env_extend k v st = env_extend (global_env st) k v st"

text \<open>Modelled from the spec: \<open>env_extend_with_args\<close> is missing; the spec says it binds
  parameters positionally and that, if the parameter list contains \<open>&\<close> and a rest name,
  the remaining arguments are collected into a list bound to that name. The spec names no
  arity error of this function, so none is modelled: binding stops when either the
  parameters or the arguments run out.\<close>

fun list_of_args :: "obj list \<Rightarrow> obj" where
  "list_of_args [] = nil"
| "list_of_args (x # xs) = Cell x (list_of_args xs)"

fun bind_params :: "obj \<Rightarrow> obj list \<Rightarrow> (obj \<times> obj) list" where
  "bind_params (Cell p rest) args =
     (if p = Null then []
      else if obj_eq p ampersand then
        (case rest of Cell r rest' \<Rightarrow> (if r = Null then [] else [(r, list_of_args args)]) | _ \<Rightarrow> [])
      else (case args of [] \<Rightarrow> [] | a # as \<Rightarrow> (p, a) # bind_params rest as))"
| "bind_params _ args = []"

definition params_of :: "obj \<Rightarrow> obj" where
  "params_of f = (case f of Lambda p b e c \<Rightarrow> p | Macro p b e c \<Rightarrow> p | _ \<Rightarrow> Null)"

definition env_extend_with_args :: "addr \<Rightarrow> obj \<Rightarrow> obj list \<Rightarrow> state \<Rightarrow> state" where
  "env_extend_with_args calling_env function args st =
     fold (\<lambda>(k, v) s. env_extend calling_env k v s) (bind_params (params_of function) args) st"

text \<open>Modelled from the spec: \<open>obj_copy\<close> is missing; the spec says the environment literal
  is copied and the binding values are replaced in the copy.\<close>

definition obj_copy_env :: "addr \<Rightarrow> state \<Rightarrow> addr \<times> state" where
  "obj_copy_env a st =
     (length (heap st),
      st\<lparr>heap := heap st @ [if a < length (heap st) then heap st ! a
                            else \<lparr>bindings = [], parent = None\<rparr>]\<rparr>)"

section \<open>Pattern matcher\<close>

lemma rbind_cong [fundef_cong]:
  "m = m' \<Longrightarrow> (\<And>x. m' = Ok x \<Longrightarrow> f x = f' x) \<Longrightarrow> rbind m f = rbind m' f'"
  by (cases m') auto

lemma cdr_size: "cdr p = Ok x \<Longrightarrow> size x < Suc (size p)"
  by (cases p) auto

text \<open>The test \<open>obj_eq(p1->car, ampersand) && p1->cdr && p1->cdr->car\<close> of obj_match_lists
  for a pattern cell with car \<open>a\<close> and cdr \<open>d\<close>; when it holds, the result is the pattern
  element \<open>p1->cdr->car\<close>.\<close>

definition rest_pattern :: "obj \<Rightarrow> obj \<Rightarrow> obj option res" where
  "rest_pattern a d =
     (if obj_eq a ampersand \<and> d \<noteq> Null
      then rbind (car d) (\<lambda>x. Ok (if x \<noteq> Null then Some x else None))
      else Ok None)"

text \<open>The test \<open>obj_eq(attempt->car, lisp_quote) && attempt->cdr && attempt->cdr->car\<close> of
  obj_match; when it holds, the result is \<open>quoted_attempt\<close>.\<close>

definition quoted_pattern :: "obj \<Rightarrow> obj \<Rightarrow> obj option res" where
  "quoted_pattern a d =
     (if obj_eq a lisp_quote \<and> d \<noteq> Null
      then rbind (car d) (\<lambda>x. Ok (if x \<noteq> Null then Some x else None))
      else Ok None)"

lemma rest_pattern_size: "rest_pattern a d = Ok (Some x) \<Longrightarrow> size x < Suc (size d)"
  by (cases d) (auto simp: rest_pattern_def split: if_splits)

text \<open>
  \<open>obj_match_lists env p1 p2\<close> is the loop of the C function at the pointers \<open>p1\<close>, \<open>p2\<close>; the
  function is entered with \<open>p1 = attempt\<close> and \<open>p2 = value\<close>. Both functions return the
  boolean and the state (env_extend writes to the heap).
\<close>

function obj_match :: "addr \<Rightarrow> obj \<Rightarrow> obj \<Rightarrow> state \<Rightarrow> (bool \<times> state) res"
  and obj_match_lists :: "addr \<Rightarrow> obj \<Rightarrow> obj \<Rightarrow> state \<Rightarrow> (bool \<times> state) res" where
  "obj_match env attempt v st =
     (case attempt of
        Null \<Rightarrow> Fatal BadAccess
      | Sym s \<Rightarrow> Ok (True, env_extend env attempt v st)
      | NilCell \<Rightarrow>
          (if v = Null then Fatal BadAccess
           else if is_cons v then obj_match_lists env attempt v st
           else Ok (obj_eq attempt v, st))
      | Cell a d \<Rightarrow>
          rbind (quoted_pattern a d) (\<lambda>q.
            case q of
              Some quoted_attempt \<Rightarrow> Ok (obj_eq quoted_attempt v, st)
            | None \<Rightarrow>
                (if v = Null then Fatal BadAccess
                 else if is_cons v then obj_match_lists env attempt v st
                 else Ok (obj_eq attempt v, st)))
      | _ \<Rightarrow> Ok (obj_eq attempt v, st))"
| "obj_match_lists env p1 p2 st =
     (case p1 of
        Null \<Rightarrow> rbind (has_car p2) (\<lambda>b. Ok (\<not> b, st))
      | NilCell \<Rightarrow> rbind (has_car p2) (\<lambda>b. Ok (\<not> b, st))
      | Cell a d \<Rightarrow>
          (if a = Null then rbind (has_car p2) (\<lambda>b. Ok (\<not> b, st))
           else
             rbind (rest_pattern a d) (\<lambda>r.
               case r of
                 Some x \<Rightarrow> obj_match env x p2 st
               | None \<Rightarrow>
                   rbind (has_car p2) (\<lambda>b.
                     if \<not> b then Ok (False, st)
                     else
                       rbind (car p2) (\<lambda>x2.
                       rbind (obj_match env a x2 st) (\<lambda>(result, st).
                         if \<not> result then Ok (False, st)
                         else rbind (cdr p2) (\<lambda>p2'. obj_match_lists env d p2' st))))))
      | _ \<Rightarrow> Fatal BadAccess)"
  by pat_completeness auto
termination
  by (relation "measure (\<lambda>x. case x of
          Inl (env, attempt, v, st) \<Rightarrow> 2 * size attempt + 1
        | Inr (env, p1, p2, st) \<Rightarrow> 2 * size p1)")
     (auto dest: rest_pattern_size)

declare obj_match.simps [simp del] obj_match_lists.simps [simp del]

section \<open>The special forms of eval_list\<close>

text \<open>
  eval_internal, eval_list, match and apply call each other. Each function below takes
  the evaluator \<open>ev\<close> it calls for \<open>eval_internal\<close>; eval_internal itself closes the
  recursion and gives \<open>ev\<close> one unit of fuel less. A loop that leaves the C function through
  \<open>return\<close> gives \<open>True\<close> with the state, and \<open>False\<close> when the loop ends.
\<close>

text \<open>The loop of the do branch, at \<open>p\<close>.\<close>

fun do_loop :: "evaluator \<Rightarrow> addr \<Rightarrow> obj \<Rightarrow> state \<Rightarrow> state res" where
  "do_loop ev env (Cell a d) st =
     (if a = Null then Ok st
      else
        rbind (ev env a st) (\<lambda>st.
          if error st \<noteq> None then Ok st
          else
            rbind (has_car d) (\<lambda>more.
              if more then rbind (stack_pop st) (\<lambda>(x, st). do_loop ev env d st)
              else do_loop ev env d st)))"
| "do_loop ev env Null st = Ok st"
| "do_loop ev env NilCell st = Ok st"
| "do_loop ev env p st = Fatal BadAccess"

text \<open>The loop of the let branch, at \<open>p\<close>; \<open>o\<close> is the let form.\<close>

function let_loop :: "evaluator \<Rightarrow> obj \<Rightarrow> addr \<Rightarrow> obj \<Rightarrow> state \<Rightarrow> (bool \<times> state) res" where
  "let_loop ev o' let_env p st =
     (case p of
        Null \<Rightarrow> Ok (False, st)
      | NilCell \<Rightarrow> Ok (False, st)
      | Cell s d \<Rightarrow>
          (if s = Null then Ok (False, st)
           else if d = Null then Ok (True, set_error ''Uneven nr of forms in let: '' o' st)
           else if \<not> is_sym s then Ok (True, set_error ''Must bind to symbol in let form: '' s st)
           else
             rbind (car d) (\<lambda>e.
             rbind (ev let_env e st) (\<lambda>st.
               if error st \<noteq> None then Ok (True, st)
               else
                 rbind (stack_pop st) (\<lambda>(x, st).
                 rbind (cdr d) (\<lambda>p'. let_loop ev o' let_env p' (env_extend let_env s x st))))))
      | _ \<Rightarrow> Fatal BadAccess)"
  by pat_completeness auto
termination
  by (relation "measure (\<lambda>(ev, o', let_env, p, st). size p)") (auto dest: cdr_size)

declare let_loop.simps [simp del]

definition eval_list_let :: "evaluator \<Rightarrow> addr \<Rightarrow> obj \<Rightarrow> state \<Rightarrow> state res" where
  "eval_list_let ev env o' st =
     (case obj_new_environment (Some env) st of (let_env, st) \<Rightarrow>
        rbind (rbind (cdr o') car) (\<lambda>p.
          if p = Null then Ok (set_error ''No bindings in 'let' form.'' o' st)
          else
            rbind (let_loop ev o' let_env p st) (\<lambda>(returned, st).
              if returned then Ok st
              else
                rbind (rbind (rbind (cdr o') cdr) car) (\<lambda>body.
                  if body = Null then Ok (set_error ''No body in 'let' form.'' o' st)
                  else ev let_env body st))))"

text \<open>The loop of the not branch, at \<open>p\<close>.\<close>

fun not_loop :: "world \<Rightarrow> evaluator \<Rightarrow> addr \<Rightarrow> obj \<Rightarrow> state \<Rightarrow> (bool \<times> state) res" where
  "not_loop w ev env (Cell a d) st =
     (if a \<noteq> Null then
        rbind (ev env a st) (\<lambda>st.
          if error st \<noteq> None then Ok (True, st)
          else
            rbind (stack_pop st) (\<lambda>(x, st).
              if is_true x then rbind (stack_push w lisp_false st) (\<lambda>st. Ok (True, st))
              else not_loop w ev env d st))
      else not_loop w ev env d st)"
| "not_loop w ev env Null st = Ok (False, st)"
| "not_loop w ev env NilCell st = Ok (False, st)"
| "not_loop w ev env p st = Fatal BadAccess"

definition eval_list_not :: "world \<Rightarrow> evaluator \<Rightarrow> addr \<Rightarrow> obj \<Rightarrow> state \<Rightarrow> state res" where
  "eval_list_not w ev env o' st =
     rbind (cdr o') (\<lambda>p.
     rbind (not_loop w ev env p st) (\<lambda>(returned, st).
       if returned then Ok st else stack_push w lisp_true st))"

definition eval_list_quote :: "world \<Rightarrow> obj \<Rightarrow> state \<Rightarrow> state res" where
  "eval_list_quote w o' st =
     rbind (cdr o') (\<lambda>d.
       if d = nil then stack_push w nil st
       else rbind (car d) (\<lambda>x. stack_push w x st))"

text \<open>The loop of the while branch; it may run forever, so it has fuel of its own.\<close>

fun while_loop :: "world \<Rightarrow> evaluator \<Rightarrow> nat \<Rightarrow> addr \<Rightarrow> obj \<Rightarrow> state \<Rightarrow> state res" where
  "while_loop w ev 0 env o' st = Timeout"
| "while_loop w ev (Suc k) env o' st =
     rbind (stack_pop st) (\<lambda>(c, st).
       if is_true c then
         rbind (rbind (rbind (cdr o') cdr) car) (\<lambda>body.
         rbind (ev env body st) (\<lambda>st.
         rbind (stack_pop st) (\<lambda>(x, st).
         rbind (rbind (cdr o') car) (\<lambda>cond.
         rbind (ev env cond st) (\<lambda>st.
           if error st \<noteq> None then Ok st else while_loop w ev k env o' st)))))
       else stack_push w nil st)"

definition eval_list_while :: "world \<Rightarrow> evaluator \<Rightarrow> nat \<Rightarrow> addr \<Rightarrow> obj \<Rightarrow> state \<Rightarrow> state res" where
  "eval_list_while w ev k env o' st =
     rbind (rbind (cdr o') car) (\<lambda>cond.
     rbind (ev env cond st) (\<lambda>st.
       if error st \<noteq> None then Ok st else while_loop w ev k env o' st))"

definition eval_list_if :: "evaluator \<Rightarrow> addr \<Rightarrow> obj \<Rightarrow> state \<Rightarrow> state res" where
  "eval_list_if ev env o' st =
     rbind (rbind (cdr o') car) (\<lambda>c.
     rbind (ev env c st) (\<lambda>st.
       if error st \<noteq> None then Ok st
       else
         rbind (stack_pop st) (\<lambda>(x, st).
           if is_true x then
             rbind (rbind (rbind (cdr o') cdr) car) (\<lambda>t. ev env t st)
           else
             rbind (rbind (rbind (rbind (cdr o') cdr) cdr) car) (\<lambda>e. ev env e st))))"

text \<open>The C function match; \<open>match_loop\<close> is its loop at \<open>p\<close>.\<close>

function match_loop :: "evaluator \<Rightarrow> addr \<Rightarrow> obj \<Rightarrow> obj \<Rightarrow> obj \<Rightarrow> state \<Rightarrow> (bool \<times> state) res" where
  "match_loop ev env v attempts p st =
     (case p of
        Null \<Rightarrow> Ok (False, st)
      | NilCell \<Rightarrow> Ok (False, st)
      | Cell a d \<Rightarrow>
          (if a = Null then Ok (False, st)
           else
             (case obj_new_environment (Some env) st of (new_env, st) \<Rightarrow>
                rbind (obj_match new_env a v st) (\<lambda>(result, st).
                  if result then
                    rbind (rbind (car d) (\<lambda>r. ev new_env r st)) (\<lambda>st. Ok (True, st))
                  else if d = Null then
                    Ok (True, set_error ''Uneven nr of forms in match.'' attempts st)
                  else rbind (cdr d) (\<lambda>p'. match_loop ev env v attempts p' st))))
      | _ \<Rightarrow> Fatal BadAccess)"
  by pat_completeness auto
termination
  by (relation "measure (\<lambda>(ev, env, v, attempts, p, st). size p)") (auto dest: cdr_size)

declare match_loop.simps [simp del]

definition match :: "evaluator \<Rightarrow> addr \<Rightarrow> obj \<Rightarrow> obj \<Rightarrow> state \<Rightarrow> state res" where
  "match ev env v attempts st =
     rbind (match_loop ev env v attempts attempts st) (\<lambda>(returned, st).
       if returned then Ok st
       else Ok (set_error ''Failed to find a suitable match for: '' v st))"

definition eval_list_match :: "evaluator \<Rightarrow> addr \<Rightarrow> obj \<Rightarrow> state \<Rightarrow> state res" where
  "eval_list_match ev env o' st =
     rbind (rbind (cdr o') car) (\<lambda>e.
     rbind (ev env e st) (\<lambda>st.
       if error st \<noteq> None then Ok st
       else
         rbind (stack_pop st) (\<lambda>(v, st).
         rbind (rbind (cdr o') cdr) (\<lambda>p. match ev env v p st))))"

definition eval_list_reset :: "world \<Rightarrow> evaluator \<Rightarrow> addr \<Rightarrow> obj \<Rightarrow> state \<Rightarrow> state res" where
  "eval_list_reset w ev env o' st =
     rbind (rbind (cdr o') car) (\<lambda>s.
       case s of
         Null \<Rightarrow> Fatal BadAccess
       | Sym name \<Rightarrow>
           (let loc = env_lookup_binding st env s; pair = binding_at st loc in
            rbind (car pair) (\<lambda>k.
              if k = Null \<or> \<not> is_sym k then
                stack_push w nil
                  (st\<lparr>out := out st @
                     [Text (''Can't reset! binding '' @ [CHR 0x27]), Text name,
                      Text ([CHR 0x27] @ '', it's '' @ [CHR 0x27]), Rendered pair,
                      Text [CHR 0x27, CHR 0x0A]]\<rparr>)
              else
                rbind (rbind (rbind (cdr o') cdr) car) (\<lambda>e.
                rbind (ev env e st) (\<lambda>st.
                  if error st \<noteq> None then Ok st
                  else
                    rbind (stack_pop st) (\<lambda>(x, st).
                      case loc of
                        None \<Rightarrow> Fatal BadAccess
                      | Some l \<Rightarrow> stack_push w x (set_binding l x st))))))
       | _ \<Rightarrow> Ok (set_error ''Must use 'reset!' on a symbol.'' s st))"

definition eval_list_fn :: "world \<Rightarrow> addr \<Rightarrow> obj \<Rightarrow> state \<Rightarrow> state res" where
  "eval_list_fn w env o' st =
     rbind (cdr o') (\<lambda>d.
       if d = Null then
         Ok (set_error ''Lambda form too short (no parameter list or body).'' o' st)
       else
         rbind (car d) (\<lambda>params.
           if params = Null then Ok (set_error ''No parameter list in lambda.'' o' st)
           else
             rbind (cdr d) (\<lambda>dd.
               if dd = Null then Ok (set_error ''Lambda form too short (no body).'' o' st)
               else
                 rbind (car dd) (\<lambda>body.
                   if body = Null then Ok (set_error ''No body in lambda: '' o' st)
                   else stack_push w (Lambda params body env o') st))))"

definition eval_list_macro :: "world \<Rightarrow> addr \<Rightarrow> obj \<Rightarrow> state \<Rightarrow> state res" where
  "eval_list_macro w env o' st =
     rbind (cdr o') (\<lambda>d.
       if d = Null then
         Ok (set_error ''Macro form too short (no parameter list or body): '' o' st)
       else
         rbind (car d) (\<lambda>params.
           if params = Null then Ok (set_error ''No parameter list in macro: '' o' st)
           else
             rbind (cdr d) (\<lambda>dd.
               if dd = Null then Ok (set_error ''Macro form too short (no body): '' o' st)
               else
                 rbind (car dd) (\<lambda>body.
                   if body = Null then Ok (set_error ''No body in macro: '' o' st)
                   else stack_push w (Macro params body env o') st))))"

definition eval_list_def :: "world \<Rightarrow> evaluator \<Rightarrow> addr \<Rightarrow> obj \<Rightarrow> state \<Rightarrow> state res" where
  "eval_list_def w ev env o' st =
     rbind (cdr o') (\<lambda>d.
       if d = Null then Ok (set_error ''Too few args to 'def': '' o' st)
       else
         rbind (car d) (\<lambda>key.
           if key = Null then Ok (set_error ''Can't assign to nil: '' o' st)
           else if \<not> is_sym key then Ok (set_error ''Can't assign to non-symbol: '' o' st)
           else
             rbind (rbind (cdr d) car) (\<lambda>e.
             rbind (ev env e st) (\<lambda>st.
               if error st \<noteq> None then Ok st
               else
                 rbind (stack_pop st) (\<lambda>(val, st).
                   stack_push w val (global_env_extend key val st))))))"

definition eval_list_defp :: "world \<Rightarrow> addr \<Rightarrow> obj \<Rightarrow> state \<Rightarrow> state res" where
  "eval_list_defp w env o' st =
     rbind (rbind (cdr o') car) (\<lambda>key.
       if obj_eq nil (binding_at st (env_lookup_binding st env key))
       then stack_push w lisp_false st
       else stack_push w lisp_true st)"

section \<open>The applicator\<close>

text \<open>
  The argument loop of apply for a Foreign function, at the type pointer \<open>p\<close> with the
  arguments still to marshal and the C values marshalled so far. \<open>Inl\<close> is a return from
  apply with the error set, \<open>Inr\<close> is the end of the loop with the final \<open>p\<close>.
\<close>

definition marshal_arg :: "obj \<Rightarrow> obj \<Rightarrow> state \<Rightarrow> (state + cval) res" where
  "marshal_arg t a st =
     (if t = Null then Fatal AssertionFailed
      else if obj_eq t type_int then
        (case a of Null \<Rightarrow> Fatal BadAccess
         | IntV i \<Rightarrow> Ok (Inr (CInt i))
         | _ \<Rightarrow> Ok (Inl (set_error ''Invalid type of arg: '' a st)))
      else if obj_eq t type_float then
        (case a of Null \<Rightarrow> Fatal BadAccess
         | FloatV f \<Rightarrow> Ok (Inr (CFloat f))
         | _ \<Rightarrow> Ok (Inl (set_error ''Invalid type of arg: '' a st)))
      else if obj_eq t type_string then
        (case a of Null \<Rightarrow> Fatal BadAccess
         | StrV s \<Rightarrow> Ok (Inr (CStr s))
         | _ \<Rightarrow> Ok (Inl (set_error ''Invalid type of arg: '' a st)))
      else
        rbind (if is_cons t then rbind (car t) (\<lambda>h. Ok (obj_eq h (Keyword ''ptr''))) else Ok False)
          (\<lambda>is_ptr.
             if is_ptr then
               (case a of Null \<Rightarrow> Fatal BadAccess
                | PtrV q \<Rightarrow> Ok (Inr (CPtr q))
                | _ \<Rightarrow> Ok (Inl (set_error ''Invalid type of arg: '' a st)))
             else Ok (Inl (set_error ''Can't call foreign function with argument of type '' t st))))"

fun marshal_loop :: "obj \<Rightarrow> obj \<Rightarrow> obj list \<Rightarrow> cval list \<Rightarrow> state \<Rightarrow> (state + obj \<times> cval list) res" where
  "marshal_loop function p [] vals st = Ok (Inr (p, vals))"
| "marshal_loop function p (a # as) vals st =
     rbind (if p = Null then Ok False else rbind (cdr p) (\<lambda>d. Ok (d \<noteq> Null))) (\<lambda>has_cdr.
       if has_cdr then
         rbind (car p) (\<lambda>t.
         rbind (marshal_arg t a st) (\<lambda>m.
           case m of
             Inl st' \<Rightarrow> Ok (Inl st')
           | Inr c \<Rightarrow> rbind (cdr p) (\<lambda>p'. marshal_loop function p' as (vals @ [c]) st)))
       else Ok (Inl (set_error ''Too many arguments to '' function st)))"

definition unmarshal :: "world \<Rightarrow> nat \<Rightarrow> obj \<Rightarrow> cval list \<Rightarrow> state \<Rightarrow> state res" where
  "unmarshal w funptr return_type vals st =
     (let r = ffi_call w funptr vals in
      if obj_eq return_type type_string then
        stack_push w (case ret_str r of None \<Rightarrow> StrV [] | Some c \<Rightarrow> StrV c) st
      else if obj_eq return_type type_int then stack_push w (IntV (ret_int r)) st
      else if obj_eq return_type type_bool then
        stack_push w (if ret_int r \<noteq> 0 then lisp_true else lisp_false) st
      else if obj_eq return_type type_float then stack_push w (FloatV (ret_float r)) st
      else if obj_eq return_type type_void then stack_push w nil st
      else
        rbind (if is_cons return_type then rbind (car return_type) (\<lambda>h. Ok (obj_eq h type_ptr))
               else Ok False)
          (\<lambda>is_ptr.
             if is_ptr then stack_push w (PtrV (ret_ptr r)) st
             else Ok (set_error ''Returning what? '' return_type st)))"

definition apply_foreign :: "world \<Rightarrow> obj \<Rightarrow> obj list \<Rightarrow> state \<Rightarrow> state res" where
  "apply_foreign w function args st =
     (case function of
        Foreign cif funptr arg_types return_type \<Rightarrow>
          (case funptr of
             None \<Rightarrow>
               Ok (st\<lparr>error := Some [Text
                 ''Can't call foregin function, it's funptr is NULL. May be a stub function with just a signature?'']\<rparr>)
           | Some fp \<Rightarrow>
               if cif \<and> arg_types \<noteq> Null \<and> return_type \<noteq> Null then
                 rbind (marshal_loop function arg_types args [] st) (\<lambda>m.
                   case m of
                     Inl st' \<Rightarrow> Ok st'
                   | Inr (p, vals) \<Rightarrow>
                       rbind (has_car p) (\<lambda>more.
                         if more then Ok (set_error ''Too few arguments to '' function st)
                         else unmarshal w fp return_type vals st))
               else Fatal AssertionFailed)
      | _ \<Rightarrow> Fatal BadAccess)"

definition apply_keyword :: "world \<Rightarrow> obj \<Rightarrow> obj list \<Rightarrow> state \<Rightarrow> state res" where
  "apply_keyword w function args st =
     (case args of
        [a] \<Rightarrow>
          (case a of
             Null \<Rightarrow> Fatal BadAccess
           | EnvV e \<Rightarrow>
               (let v = env_lookup st e function in
                if v \<noteq> Null then stack_push w v st
                else Ok (st\<lparr>error := Some [Text (''Failed to lookup keyword '' @ [CHR 0x27]),
                                            Rendered function, Text [CHR 0x27]]\<rparr>))
           | _ \<Rightarrow>
               Ok (st\<lparr>error := Some [Text ''Arg 0 to keyword lookup must be a dictionary: '',
                                     Rendered a]\<rparr>))
      | _ \<Rightarrow> Ok (st\<lparr>error := Some [Text ''Args to keyword lookup must be a single arg.'']\<rparr>))"

definition apply_fn :: "world \<Rightarrow> evaluator \<Rightarrow> obj \<Rightarrow> obj list \<Rightarrow> state \<Rightarrow> state res" where
  "apply_fn w ev function args st =
     (case function of
        Null \<Rightarrow> Fatal BadAccess
      | Lambda params body fenv code \<Rightarrow>
          (case obj_new_environment (Some fenv) st of (calling_env, st) \<Rightarrow>
             ev calling_env body (env_extend_with_args calling_env function args st))
      | Primop k \<Rightarrow>
          (case primop w k args of (result, e) \<Rightarrow>
             stack_push w result (case e of None \<Rightarrow> st | Some m \<Rightarrow> st\<lparr>error := Some m\<rparr>))
      | Foreign cif funptr arg_types return_type \<Rightarrow> apply_foreign w function args st
      | Keyword s \<Rightarrow> apply_keyword w function args st
      | _ \<Rightarrow> Ok (set_error ''Can't call non-function: '' function st))"

section \<open>The general call of eval_list\<close>

text \<open>The argument loop at \<open>p\<close>; the result carries \<open>count\<close>.\<close>

fun args_loop :: "world \<Rightarrow> evaluator \<Rightarrow> addr \<Rightarrow> bool \<Rightarrow> obj \<Rightarrow> nat \<Rightarrow> state \<Rightarrow> (bool \<times> nat \<times> state) res" where
  "args_loop w ev env eval_args (Cell a d) count st =
     (if a = Null then Ok (False, count, st)
      else if error st \<noteq> None then Ok (True, count, st)
      else
        rbind (if eval_args then ev env a st else stack_push w a st) (\<lambda>st.
          args_loop w ev env eval_args d (Suc count) st))"
| "args_loop w ev env eval_args Null count st = Ok (False, count, st)"
| "args_loop w ev env eval_args NilCell count st = Ok (False, count, st)"
| "args_loop w ev env eval_args p count st = Fatal BadAccess"

text \<open>The loop \<open>args[count - i - 1] = stack_pop()\<close>: the first value popped is the last
  argument.\<close>

fun pop_args :: "nat \<Rightarrow> obj list \<Rightarrow> state \<Rightarrow> (obj list \<times> state) res" where
  "pop_args 0 args st = Ok (args, st)"
| "pop_args (Suc k) args st = rbind (stack_pop st) (\<lambda>(arg, st). pop_args k (arg # args) st)"

definition call_macro :: "evaluator \<Rightarrow> addr \<Rightarrow> obj \<Rightarrow> obj list \<Rightarrow> state \<Rightarrow> state res" where
  "call_macro ev env function args st =
     (case function of
        Macro params body fenv code \<Rightarrow>
          (case obj_new_environment (Some fenv) st of (calling_env, st) \<Rightarrow>
             rbind (ev calling_env body (env_extend_with_args calling_env function args st)) (\<lambda>st.
               if error st \<noteq> None then Ok st
               else rbind (stack_pop st) (\<lambda>(expanded, st). ev env expanded st)))
      | _ \<Rightarrow> Fatal BadAccess)"

definition call_function :: "world \<Rightarrow> evaluator \<Rightarrow> obj \<Rightarrow> obj \<Rightarrow> obj list \<Rightarrow> state \<Rightarrow> state res" where
  "call_function w ev o' function args st =
     (if int (length (function_trace st)) > int (STACK_SIZE w) - 1 then Fatal TraceOverflow
      else
        rbind (apply_fn w ev function args (st\<lparr>function_trace := function_trace st @ [o']\<rparr>)) (\<lambda>st.
          if error st = None then Ok (st\<lparr>function_trace := butlast (function_trace st)\<rparr>)
          else Ok st))"

definition is_macro :: "obj \<Rightarrow> bool" where
  "is_macro x = (case x of Macro p b e c \<Rightarrow> True | _ \<Rightarrow> False)"

definition eval_list_call :: "world \<Rightarrow> evaluator \<Rightarrow> addr \<Rightarrow> obj \<Rightarrow> state \<Rightarrow> state res" where
  "eval_list_call w ev env o' st =
     rbind (car o') (\<lambda>head.
     rbind (ev env head st) (\<lambda>st.
       if error st \<noteq> None then Ok st
       else
         rbind (stack_pop st) (\<lambda>(function, st).
           if function = Null then Ok (set_error ''Can't call NULL.'' o' st)
           else
             rbind (cdr o') (\<lambda>p.
             rbind (args_loop w ev env (\<not> is_macro function) p 0 st) (\<lambda>(returned, count, st).
               if returned \<or> error st \<noteq> None then Ok st
               else
                 rbind (pop_args count [] st) (\<lambda>(args, st).
                   if is_macro function then call_macro ev env function args st
                   else call_function w ev o' function args st))))))"

section \<open>eval_list, eval_internal and eval\<close>

definition eval_list :: "world \<Rightarrow> evaluator \<Rightarrow> nat \<Rightarrow> addr \<Rightarrow> obj \<Rightarrow> state \<Rightarrow> state res" where
  "eval_list w ev k env o' st =
     rbind (car o') (\<lambda>head.
       if head = Null then stack_push w o' st
       else if head = Sym ''do'' then rbind (cdr o') (\<lambda>p. do_loop ev env p st)
       else if head = Sym ''let'' then eval_list_let ev env o' st
       else if head = Sym ''not'' then eval_list_not w ev env o' st
       else if head = Sym ''quote'' then eval_list_quote w o' st
       else if head = Sym ''while'' then eval_list_while w ev k env o' st
       else if head = Sym ''if'' then eval_list_if ev env o' st
       else if head = Sym ''match'' then eval_list_match ev env o' st
       else if head = Sym ''reset!'' then eval_list_reset w ev env o' st
       else if head = Sym ''fn'' then eval_list_fn w env o' st
       else if head = Sym ''macro'' then eval_list_macro w env o' st
       else if head = Sym ''def'' then eval_list_def w ev env o' st
       else if head = Sym ''def?'' then eval_list_defp w env o' st
       else eval_list_call w ev env o' st)"

text \<open>The loop of eval_internal over the bindings of a copied environment literal; the
  pair in front of \<open>rest\<close> has \<open>length rest\<close> older bindings behind it.\<close>

fun env_literal_loop :: "evaluator \<Rightarrow> addr \<Rightarrow> addr \<Rightarrow> (obj \<times> obj) list \<Rightarrow> state \<Rightarrow> state res" where
  "env_literal_loop ev env new_env [] st = Ok st"
| "env_literal_loop ev env new_env ((k, v) # rest) st =
     rbind (ev env v st) (\<lambda>st.
     rbind (stack_pop st) (\<lambda>(x, st).
       env_literal_loop ev env new_env rest (set_binding (new_env, length rest) x st)))"

text \<open>The body of eval_internal, with \<open>ev\<close> for its recursive calls and \<open>k\<close> the fuel of a
  while loop.\<close>

definition eval_internal_body :: "world \<Rightarrow> evaluator \<Rightarrow> nat \<Rightarrow> addr \<Rightarrow> obj \<Rightarrow> state \<Rightarrow> state res" where
  "eval_internal_body w ev k env o' st =
     (if error st \<noteq> None then Ok st
      else
        (case o' of
           Null \<Rightarrow> stack_push w nil st
         | NilCell \<Rightarrow> eval_list w ev k env o' st
         | Cell a d \<Rightarrow> eval_list w ev k env o' st
         | EnvV a \<Rightarrow>
             (case obj_copy_env a st of (new_env, st) \<Rightarrow>
                rbind (env_literal_loop ev env new_env (bindings (heap st ! new_env)) st) (\<lambda>st.
                  stack_push w (EnvV new_env) st))
         | Sym s \<Rightarrow>
             (let result = env_lookup st env o' in
              if result = Null then
                stack_push w nil
                  (st\<lparr>error := Some [Truncated 255
                                      [Text (''Can't find '' @ [CHR 0x27]), Rendered o',
                                       Text ([CHR 0x27] @ '' in environment.'')]]\<rparr>)
              else stack_push w result st)
         | _ \<Rightarrow> stack_push w o' st))"

fun eval_internal :: "world \<Rightarrow> nat \<Rightarrow> addr \<Rightarrow> obj \<Rightarrow> state \<Rightarrow> state res" where
  "eval_internal w 0 env o' st = Timeout"
| "eval_internal w (Suc n) env o' st = eval_internal_body w (eval_internal w n) n env o' st"

definition eval :: "world \<Rightarrow> nat \<Rightarrow> addr \<Rightarrow> obj \<Rightarrow> state \<Rightarrow> (obj \<times> state) res" where
  "eval w n env form st =
     rbind (eval_internal w n env form (st\<lparr>error := None, stack := [], function_trace := []\<rparr>))
       stack_pop"

section \<open>Concrete inputs\<close>

text \<open>The state in which eval leaves the three cells it resets on entry.\<close>

definition reset_cells :: "state \<Rightarrow> state" where
  "reset_cells st = st\<lparr>error := None, stack := [], function_trace := []\<rparr>"

text \<open>A world with room for 512 values in which every primitive builds the list of its
  arguments, and a state whose global environment binds \<open>list\<close> to such a primitive.\<close>

definition list_world :: world where
  "list_world =
     \<lparr>STACK_SIZE = 512,
      primop = (\<lambda>k args. (list_of_args args, None)),
      ffi_call = (\<lambda>f vals. \<lparr>ret_int = 0, ret_float = 0, ret_str = None, ret_ptr = 0\<rparr>)\<rparr>"

definition start_state :: state where
  "start_state =
     \<lparr>error = None, stack = [], function_trace = [],
      heap = [\<lparr>bindings = [(Sym ''list'', Primop 0)], parent = None\<rparr>],
      global_env = 0, out = []\<rparr>"

text \<open>A list of the shape the list walks of eval.c expect: one cell per element and an
  empty cell (NULL car) at the end.\<close>

fun mk_list :: "obj list \<Rightarrow> obj" where
  "mk_list [] = Cell Null Null"
| "mk_list (x # xs) = Cell x (mk_list xs)"

text \<open>The elements of a list as the loops of eval.c walk it (\<open>while(p && p->car)\<close>).\<close>

fun items :: "obj \<Rightarrow> obj list res" where
  "items (Cell a d) = (if a = Null then Ok [] else rbind (items d) (\<lambda>xs. Ok (a # xs)))"
| "items Null = Ok []"
| "items NilCell = Ok []"
| "items p = Fatal BadAccess"

text \<open>The names eval_list tests the head of a form against.\<close>

definition special_forms :: "string list" where
  "special_forms = [''do'', ''let'', ''not'', ''quote'', ''while'', ''if'', ''match'', ''reset!'',
     ''fn'', ''macro'', ''def'', ''def?'']"

text \<open>What a caller of eval sees: the value returned and the error cell.\<close>

definition outcome :: "(obj \<times> state) res \<Rightarrow> (obj \<times> fragment list option) res" where
  "outcome r = (case r of Ok (v, st) \<Rightarrow> Ok (v, error st) | Fatal f \<Rightarrow> Fatal f | Timeout \<Rightarrow> Timeout)"

section \<open>The let form as the specification words it\<close>

text \<open>
  The specification of let: create a child environment; for each pair (s, e) in order,
  evaluate e in the growing let-environment, then extend that environment with s and the
  value; evaluate the body in the final environment. \<open>let_spec\<close> follows these words over
  the list of pairs, and is compared with the loop of eval_list below.
\<close>

fun let_bindings_spec :: "evaluator \<Rightarrow> addr \<Rightarrow> (obj \<times> obj) list \<Rightarrow> state \<Rightarrow> (bool \<times> state) res" where
  "let_bindings_spec ev let_env [] st = Ok (False, st)"
| "let_bindings_spec ev let_env ((s, e) # rest) st =
     rbind (ev let_env e st) (\<lambda>st.
       if error st \<noteq> None then Ok (True, st)
       else
         rbind (stack_pop st) (\<lambda>(x, st).
           let_bindings_spec ev let_env rest (env_extend let_env s x st)))"

definition let_spec :: "evaluator \<Rightarrow> addr \<Rightarrow> (obj \<times> obj) list \<Rightarrow> obj \<Rightarrow> state \<Rightarrow> state res" where
  "let_spec ev env pairs body st =
     (case obj_new_environment (Some env) st of (let_env, st) \<Rightarrow>
        rbind (let_bindings_spec ev let_env pairs st) (\<lambda>(failed, st).
          if failed then Ok st else ev let_env body st))"

text \<open>The binding list of a let form, flat: s1 e1 s2 e2 ...\<close>

fun binding_forms :: "(obj \<times> obj) list \<Rightarrow> obj list" where
  "binding_forms [] = []"
| "binding_forms ((s, e) # rest) = s # e # binding_forms rest"

section \<open>Stack discipline: the invariant\<close>

text \<open>
  \<open>grows k st st'\<close>: if no error is latched in \<open>st'\<close>, none was latched in \<open>st\<close> and the stack
  of \<open>st'\<close> is at most k values higher than that of \<open>st\<close> (k may be negative). An evaluator
  is balanced when every call that returns grows the stack by at most one. \<open>rg\<close> lifts
  \<open>grows\<close> to a result, read through a projection to the state; \<open>flagged\<close> is the projection
  for the loop of not, which has pushed its result when it returned and not yet otherwise.
\<close>

definition grows :: "int \<Rightarrow> state \<Rightarrow> state \<Rightarrow> bool" where
  "grows k st st' =
     (error st' = None \<longrightarrow>
        error st = None \<and> int (length (stack st')) \<le> int (length (stack st)) + k)"

definition balanced_ev :: "evaluator \<Rightarrow> bool" where
  "balanced_ev ev = (\<forall>env x st st'. ev env x st = Ok st' \<longrightarrow> grows 1 st st')"

definition same_cells :: "state \<Rightarrow> state \<Rightarrow> bool" where
  "same_cells st st' = (error st' = error st \<and> stack st' = stack st)"

definition rg :: "('a \<Rightarrow> state) \<Rightarrow> int \<Rightarrow> state \<Rightarrow> 'a res \<Rightarrow> bool" where
  "rg prj k st r = (case r of Ok y \<Rightarrow> grows k st (prj y) | _ \<Rightarrow> True)"

definition flagged :: "bool \<times> state \<Rightarrow> state" where
  "flagged y = (if fst y then snd y else (snd y)\<lparr>stack := NilCell # stack (snd y)\<rparr>)"

section \<open>Lemmas on the collaborators and the stack\<close>

lemma rbind_Ok_iff: "rbind m f = Ok y \<longleftrightarrow> (\<exists>x. m = Ok x \<and> f x = Ok y)"
  by (cases m) auto

lemma env_extend_cells [simp]:
  "error (env_extend a k v st) = error st"
  "stack (env_extend a k v st) = stack st"
  "function_trace (env_extend a k v st) = function_trace st"
  "global_env (env_extend a k v st) = global_env st"
  "out (env_extend a k v st) = out st"
  "length (heap (env_extend a k v st)) = length (heap st)"
  by (simp_all add: env_extend_def)

lemma grows_refl: "0 \<le> k \<Longrightarrow> grows k st st"
  by (simp add: grows_def)

lemma grows_push: "stack_push w x st = Ok st' \<Longrightarrow> grows 1 st st'"
  by (auto simp: stack_push_def grows_def split: if_splits)

lemma grows_pop: "stack_pop st = Ok (x, st') \<Longrightarrow> grows (- 1) st st'"
  by (auto simp: stack_pop_def grows_def split: if_splits list.splits)

lemma grows_ev: "balanced_ev ev \<Longrightarrow> ev env x st = Ok st' \<Longrightarrow> grows 1 st st'"
  by (auto simp: balanced_ev_def)

lemma set_error_cells [simp]:
  "error (set_error m x st) \<noteq> None" "stack (set_error m x st) = stack st"
  by (simp_all add: set_error_def)

lemma env_extend_with_args_cells [simp]:
  "error (env_extend_with_args a f args st) = error st"
  "stack (env_extend_with_args a f args st) = stack st"
proof -
  have "error (fold (\<lambda>(k, v) s. env_extend a k v s) bs st) = error st
      \<and> stack (fold (\<lambda>(k, v) s. env_extend a k v s) bs st) = stack st" for bs
    by (induction bs arbitrary: st) auto
  then show "error (env_extend_with_args a f args st) = error st"
    "stack (env_extend_with_args a f args st) = stack st"
    by (simp_all add: env_extend_with_args_def)
qed

lemma set_binding_cells [simp]:
  "error (set_binding l v st) = error st" "stack (set_binding l v st) = stack st"
  by (simp_all add: set_binding_def Let_def split: prod.splits)



lemma same_cells_refl [simp]: "same_cells st st"
  by (simp add: same_cells_def)

lemma same_cells_trans: "same_cells a b \<Longrightarrow> same_cells b c \<Longrightarrow> same_cells a c"
  by (simp add: same_cells_def)

lemma same_cells_env_extend [simp]: "same_cells st (env_extend a k v st)"
  by (simp add: same_cells_def)

subsection \<open>The matcher leaves the error cell and the stack alone\<close>

lemma obj_match_lists_Cell:
  "a \<noteq> Null \<Longrightarrow> obj_match_lists env (Cell a d) p2 st =
     rbind (rest_pattern a d) (\<lambda>r.
       case r of
         Some x \<Rightarrow> obj_match env x p2 st
       | None \<Rightarrow>
           rbind (has_car p2) (\<lambda>b.
             if \<not> b then Ok (False, st)
             else
               rbind (car p2) (\<lambda>x2.
               rbind (obj_match env a x2 st) (\<lambda>(result, st).
                 if \<not> result then Ok (False, st)
                 else rbind (cdr p2) (\<lambda>p2'. obj_match_lists env d p2' st)))))"
  by (subst obj_match_lists.simps) simp

lemma obj_match_cells:
  "obj_match env attempt v st = Ok (b, st') \<longrightarrow> same_cells st st'"
  "obj_match_lists env p1 p2 st = Ok (b, st') \<longrightarrow> same_cells st st'"
proof (induction env attempt v st and env p1 p2 st arbitrary: b st' and b st'
    rule: obj_match_obj_match_lists.induct)
  case (1 env attempt v st)
  show ?case
  proof (cases attempt)
    case NilCell
    with 1(1) show ?thesis
      by (subst obj_match.simps) (auto split: if_splits)
  next
    case (Cell a d)
    with 1(2) show ?thesis
      by (subst obj_match.simps) (auto simp: rbind_Ok_iff split: if_splits option.splits)
  qed ((subst obj_match.simps, fastforce)+)
next
  case (2 env p1 p2 st)
  show ?case
  proof (cases p1)
    case (Cell a d)
    show ?thesis
    proof (cases "a = Null")
      case True
      with Cell show ?thesis
        by (subst obj_match_lists.simps) (auto simp: rbind_Ok_iff)
    next
      case False
      show ?thesis
      proof
        assume r: "obj_match_lists env p1 p2 st = Ok (b, st')"
        note r' = r [unfolded Cell obj_match_lists_Cell [OF False]]
        from r' obtain q where q: "rest_pattern a d = Ok q"
          by (auto simp: rbind_Ok_iff)
        show "same_cells st st'"
        proof (cases q)
          case (Some x)
          with r' q have "obj_match env x p2 st = Ok (b, st')"
            by simp
          with 2(3) [OF Cell False q Some] show ?thesis by blast
        next
          case None
          from r' q None
          consider (stop) "st' = st"
            | (fail) x2 where "has_car p2 = Ok True" "car p2 = Ok x2"
                "obj_match env a x2 st = Ok (False, st')"
            | (go) x2 st1 p2' where "has_car p2 = Ok True" "car p2 = Ok x2"
                "obj_match env a x2 st = Ok (True, st1)" "cdr p2 = Ok p2'"
                "obj_match_lists env d p2' st1 = Ok (b, st')"
            by (auto simp: rbind_Ok_iff split: if_splits)
          then show ?thesis
          proof cases
            case stop
            then show ?thesis by simp
          next
            case fail
            from 2(1) [OF Cell False q None fail(1) _ fail(2)] fail(3)
            show ?thesis by blast
          next
            case go
            from 2(1) [OF Cell False q None go(1) _ go(2)] go(3)
            have a: "same_cells st st1" by blast
            from 2(2) [OF Cell False q None go(1) _ go(2) go(3) refl _ go(4)] go(5)
            have "same_cells st1 st'" by blast
            with a show ?thesis by (rule same_cells_trans)
          qed
        qed
      qed
    qed
  qed ((subst obj_match_lists.simps, fastforce simp: rbind_Ok_iff)+)
qed

subsection \<open>Each function of eval.c grows the stack by at most one\<close>

lemma grows_chain2: "grows j a b \<Longrightarrow> grows k b c \<Longrightarrow> grows (j + k) a c"
  by (auto simp: grows_def)

lemma has_car_False_do_loop: "has_car d = Ok False \<Longrightarrow> do_loop ev env d st = Ok st"
  by (cases d) (auto simp: has_car_def split: if_splits)

lemma do_loop_balanced:
  "balanced_ev ev \<Longrightarrow> do_loop ev env p st = Ok st' \<Longrightarrow> grows 1 st st'"
proof (induction ev env p st arbitrary: st' rule: do_loop.induct)
  case (1 ev env a d st)
  note bal = 1(3) and run = 1(4)
  show ?case
  proof (cases "a = Null")
    case True
    with run show ?thesis by (simp add: grows_refl)
  next
    case False
    with run obtain st1 where st1: "ev env a st = Ok st1"
      and rest: "(if error st1 \<noteq> None then Ok st1
          else rbind (has_car d) (\<lambda>more.
              if more then rbind (stack_pop st1) (\<lambda>(x, st). do_loop ev env d st)
              else do_loop ev env d st1)) = Ok st'"
      by (auto simp: rbind_Ok_iff)
    have g1: "grows 1 st st1" using bal st1 by (rule grows_ev)
    show ?thesis
    proof (cases "error st1 \<noteq> None")
      case True
      with rest g1 show ?thesis by simp
    next
      case noerr: False
      with rest obtain more where more: "has_car d = Ok more"
        and rest2: "(if more then rbind (stack_pop st1) (\<lambda>(x, st). do_loop ev env d st)
              else do_loop ev env d st1) = Ok st'"
        by (auto simp: rbind_Ok_iff)
      show ?thesis
      proof (cases more)
        case True
        with rest2 obtain x st2 where pop: "stack_pop st1 = Ok (x, st2)"
          and loop: "do_loop ev env d st2 = Ok st'"
          by (auto simp: rbind_Ok_iff)
        have g2: "grows (- 1) st1 st2" using pop by (rule grows_pop)
        have g3: "grows 1 st2 st'"
          using 1(1) [OF False st1 _ more _ pop refl bal loop] noerr True by simp
        from grows_chain2 [OF grows_chain2 [OF g1 g2] g3] show ?thesis by simp
      next
        case False
        with more rest2 have "st' = st1" by (simp add: has_car_False_do_loop)
        with g1 show ?thesis by simp
      qed
    qed
  qed
qed (auto simp: grows_refl)

lemma rgD: "rg prj k st r \<Longrightarrow> r = Ok y \<Longrightarrow> grows k st (prj y)"
  by (simp add: rg_def)

lemma rgI: "(\<And>y. r = Ok y \<Longrightarrow> grows k st (prj y)) \<Longrightarrow> rg prj k st r"
  by (cases r) (simp_all add: rg_def)

lemma rbind_assoc: "rbind (rbind m g) f = rbind m (\<lambda>x. rbind (g x) f)"
  by (cases m) simp_all

lemma rg_Ok: "grows k st (prj y) \<Longrightarrow> rg prj k st (Ok y)"
  by (simp add: rg_def)

lemma rg_Fatal: "rg prj k st (Fatal f)"
  by (simp add: rg_def)

lemma rg_Timeout: "rg prj k st Timeout"
  by (simp add: rg_def)

lemma rg_if: "(c \<Longrightarrow> rg prj k st a) \<Longrightarrow> (\<not> c \<Longrightarrow> rg prj k st b) \<Longrightarrow> rg prj k st (if c then a else b)"
  by simp

lemma rg_bind_car: "(\<And>x. car p = Ok x \<Longrightarrow> rg prj k st (f x)) \<Longrightarrow> rg prj k st (rbind (car p) f)"
  by (cases "car p") (simp_all add: rg_def)

lemma rg_bind_cdr: "(\<And>x. cdr p = Ok x \<Longrightarrow> rg prj k st (f x)) \<Longrightarrow> rg prj k st (rbind (cdr p) f)"
  by (cases "cdr p") (simp_all add: rg_def)

lemma rg_bind_has_car:
  "(\<And>x. has_car p = Ok x \<Longrightarrow> rg prj k st (f x)) \<Longrightarrow> rg prj k st (rbind (has_car p) f)"
  by (cases "has_car p") (simp_all add: rg_def)

lemma rg_cells: "same_cells st st2 \<Longrightarrow> rg prj k st2 r \<Longrightarrow> rg prj k st r"
  by (cases r) (auto simp: rg_def grows_def same_cells_def)

lemma rg_mono: "rg prj j st r \<Longrightarrow> j \<le> k \<Longrightarrow> rg prj k st r"
  by (cases r) (auto simp: rg_def grows_def)

text \<open>Sequencing: a computation that grows the stack by at most j, then one that starts from
  its result.\<close>

lemma rg_bind:
  assumes "rg p1 j st m" and "\<And>y. m = Ok y \<Longrightarrow> rg prj (k - j) (p1 y) (f y)"
  shows "rg prj k st (rbind m f)"
proof (rule rgI)
  fix z assume "rbind m f = Ok z"
  then obtain y where a: "m = Ok y" and b: "f y = Ok z"
    by (auto simp: rbind_Ok_iff)
  have "grows j st (p1 y)" using assms(1) a by (rule rgD)
  moreover have "grows (k - j) (p1 y) (prj z)" using assms(2) [OF a] b by (rule rgD)
  ultimately show "grows k st (prj z)" by (auto simp: grows_def)
qed

lemma rg_ev0: "balanced_ev ev \<Longrightarrow> rg (\<lambda>s. s) 1 st (ev env x st)"
  by (rule rgI) (auto dest: grows_ev)

lemma rg_pop0: "rg snd (- 1) st (stack_pop st)"
  by (rule rgI) (auto dest: grows_pop)

lemma rg_bind_ev:
  assumes "balanced_ev ev" and "same_cells st st2"
    and "\<And>st1. ev env x st2 = Ok st1 \<Longrightarrow> rg prj (k - 1) st1 (f st1)"
  shows "rg prj k st (rbind (ev env x st2) f)"
  by (rule rg_cells [OF assms(2)], rule rg_bind [OF rg_ev0 [OF assms(1)]]) (simp add: assms(3))

lemma rg_bind_pop:
  assumes "same_cells st st2"
    and "\<And>x st1. stack_pop st2 = Ok (x, st1) \<Longrightarrow> rg prj (k + 1) st1 (f x st1)"
  shows "rg prj k st (rbind (stack_pop st2) (case_prod f))"
  by (rule rg_cells [OF assms(1)], rule rg_bind [OF rg_pop0]) (auto simp: assms(2))

lemma rg_push: "grows (k - 1) st st2 \<Longrightarrow> rg (\<lambda>s. s) k st (stack_push w x st2)"
  by (auto simp: rg_def stack_push_def grows_def)

lemma rg_bind_push:
  assumes "grows (j - 1) st st2"
    and "\<And>st1. stack_push w x st2 = Ok st1 \<Longrightarrow> rg prj (k - j) st1 (f st1)"
  shows "rg prj k st (rbind (stack_push w x st2) f)"
  by (rule rg_bind [OF rg_push [OF assms(1)]]) (simp add: assms(2))

lemma rg_ev: "balanced_ev ev \<Longrightarrow> grows (k - 1) st st2 \<Longrightarrow> rg (\<lambda>s. s) k st (ev env x st2)"
  by (rule rgI) (auto dest!: grows_ev simp: grows_def)

lemmas rg_rules = rg_Ok rg_Fatal rg_Timeout rg_if rg_bind_car rg_bind_cdr rg_bind_has_car
  rg_bind_ev rg_bind_pop rg_push rg_ev

lemma grows_simps [simp]:
  "grows k st (set_error m x st2)"
  "grows k st (st2\<lparr>error := Some e\<rparr>)"
  "grows k st (env_extend a key v st2) = grows k st st2"
  "grows k st (global_env_extend key v st2) = grows k st st2"
  "grows k st (env_extend_with_args a f args st2) = grows k st st2"
  "grows k st (set_binding l v st2) = grows k st st2"
  "grows k st (st2\<lparr>heap := h\<rparr>) = grows k st st2"
  "grows k st (st2\<lparr>out := ou\<rparr>) = grows k st st2"
  "grows k st (st2\<lparr>function_trace := t\<rparr>) = grows k st st2"
  "0 \<le> k \<Longrightarrow> grows k st st"
  by (simp_all add: grows_def global_env_extend_def set_error_def)

lemma same_cells_simps [simp]:
  "same_cells st (env_extend a key v st2) = same_cells st st2"
  "same_cells st (global_env_extend key v st2) = same_cells st st2"
  "same_cells st (env_extend_with_args a f args st2) = same_cells st st2"
  "same_cells st (set_binding l v st2) = same_cells st st2"
  "same_cells st (st2\<lparr>heap := h\<rparr>) = same_cells st st2"
  "same_cells st (st2\<lparr>out := ou\<rparr>) = same_cells st st2"
  "same_cells st (st2\<lparr>function_trace := t\<rparr>) = same_cells st st2"
  by (simp_all add: same_cells_def global_env_extend_def)

lemma grows_error_set [simp]: "error st2 \<noteq> None \<Longrightarrow> grows k st st2"
  by (auto simp: grows_def)

lemma eval_list_if_balanced:
  "balanced_ev ev \<Longrightarrow> rg (\<lambda>s. s) 1 st (eval_list_if ev env o' st)"
  unfolding eval_list_if_def rbind_assoc
  by (intro rg_rules; simp)

lemma eval_list_quote_balanced: "rg (\<lambda>s. s) 1 st (eval_list_quote w o' st)"
  unfolding eval_list_quote_def rbind_assoc
  by (intro rg_rules; simp)

lemma eval_list_fn_balanced: "rg (\<lambda>s. s) 1 st (eval_list_fn w env o' st)"
  unfolding eval_list_fn_def rbind_assoc
  by (intro rg_rules; simp)

lemma eval_list_macro_balanced: "rg (\<lambda>s. s) 1 st (eval_list_macro w env o' st)"
  unfolding eval_list_macro_def rbind_assoc
  by (intro rg_rules; simp)

lemma eval_list_def_balanced:
  "balanced_ev ev \<Longrightarrow> rg (\<lambda>s. s) 1 st (eval_list_def w ev env o' st)"
  unfolding eval_list_def_def rbind_assoc
  by (intro rg_rules; simp)

lemma eval_list_defp_balanced: "rg (\<lambda>s. s) 1 st (eval_list_defp w env o' st)"
  unfolding eval_list_defp_def rbind_assoc
  by (intro rg_rules; simp)

lemma rg_bind_pure: "(\<And>x. m = Ok x \<Longrightarrow> rg prj k st (f x)) \<Longrightarrow> rg prj k st (rbind m f)"
  by (cases m) (simp_all add: rg_def)

lemma unmarshal_balanced: "rg (\<lambda>s. s) 1 st (unmarshal w fp rt vals st)"
  unfolding unmarshal_def Let_def
  by (auto intro!: rg_if rg_push rg_Ok rg_bind_pure)

lemma apply_keyword_balanced: "rg (\<lambda>s. s) 1 st (apply_keyword w f args st)"
proof (cases args)
  case Nil
  then show ?thesis by (simp add: apply_keyword_def rg_Ok)
next
  case (Cons a as)
  show ?thesis
  proof (cases as)
    case Nil
    with Cons show ?thesis
      by (cases a) (auto simp: apply_keyword_def Let_def intro!: rg_rules)
  next
    case (Cons b bs)
    with \<open>args = a # as\<close> show ?thesis by (simp add: apply_keyword_def rg_Ok)
  qed
qed

lemma eval_list_reset_balanced:
  "balanced_ev ev \<Longrightarrow> rg (\<lambda>s. s) 1 st (eval_list_reset w ev env o' st)"
  unfolding eval_list_reset_def rbind_assoc Let_def
  apply (intro rg_bind_cdr rg_bind_car)
  subgoal for d s
    apply (cases s; simp add: rg_Fatal rg_Ok)
    apply (intro rg_bind_car rg_if rg_push rg_bind_cdr rg_bind_ev rg_bind_pop rg_Ok; simp?)
    apply (cases "env_lookup_binding st env s"; simp add: rg_Fatal)
    apply (intro rg_push)
    apply simp
    done
  done

lemma marshal_arg_Inl: "marshal_arg t a st = Ok (Inl st') \<Longrightarrow> grows k st0 st'"
  by (auto simp: marshal_arg_def rbind_Ok_iff split: if_splits obj.splits)

lemma marshal_loop_Inl: "marshal_loop f p args vals st = Ok (Inl st') \<Longrightarrow> grows k st0 st'"
proof (induction args arbitrary: p vals)
  case Nil
  then show ?case by simp
next
  case (Cons a as)
  from Cons.prems obtain b where
    r1: "(if b then
            rbind (car p) (\<lambda>t.
            rbind (marshal_arg t a st) (\<lambda>m.
              case m of
                Inl st' \<Rightarrow> Ok (Inl st')
              | Inr c \<Rightarrow> rbind (cdr p) (\<lambda>p'. marshal_loop f p' as (vals @ [c]) st)))
          else Ok (Inl (set_error ''Too many arguments to '' f st))) = Ok (Inl st')"
    by (auto simp: rbind_Ok_iff)
  show ?case
  proof (cases b)
    case False
    with r1 show ?thesis by auto
  next
    case True
    with r1 obtain t m where m: "marshal_arg t a st = Ok m"
      and r2: "(case m of
                Inl st' \<Rightarrow> Ok (Inl st')
              | Inr c \<Rightarrow> rbind (cdr p) (\<lambda>p'. marshal_loop f p' as (vals @ [c]) st)) = Ok (Inl st')"
      by (auto simp: rbind_Ok_iff)
    show ?thesis
    proof (cases m)
      case (Inl s)
      with m r2 show ?thesis by (auto dest: marshal_arg_Inl)
    next
      case (Inr c)
      with r2 obtain p' where "marshal_loop f p' as (vals @ [c]) st = Ok (Inl st')"
        by (auto simp: rbind_Ok_iff)
      then show ?thesis by (rule Cons.IH)
    qed
  qed
qed

lemma apply_foreign_balanced: "rg (\<lambda>s. s) 1 st (apply_foreign w f args st)"
  unfolding apply_foreign_def
  apply (cases f; simp add: rg_Fatal)
  apply (split option.split; intro conjI impI allI rg_Ok rg_if rg_Fatal rg_bind_pure; simp?)
  apply (split sum.split; intro conjI impI allI rg_Ok)
   apply (simp add: marshal_loop_Inl)
  apply (split prod.split; intro conjI impI allI rg_bind_has_car rg_if rg_Ok unmarshal_balanced)
  apply simp
  done

lemma apply_fn_balanced:
  assumes bal: "balanced_ev ev"
  shows "rg (\<lambda>s. s) 1 st (apply_fn w ev f args st)"
  unfolding apply_fn_def obj_new_environment_def
  by (cases f)
    (auto intro!: rg_Ok rg_Fatal rg_push rg_ev [where ev = ev, OF bal] apply_foreign_balanced
       apply_keyword_balanced split: prod.split option.split)

lemma call_macro_balanced:
  assumes bal: "balanced_ev ev"
  shows "rg (\<lambda>s. s) 1 st (call_macro ev env f args st)"
  unfolding call_macro_def obj_new_environment_def
  by (cases f)
    (auto intro!: rg_Ok rg_Fatal rg_if rg_bind_pop rg_bind_ev [where ev = ev, OF bal]
       rg_ev [where ev = ev, OF bal])

lemma call_function_balanced:
  assumes bal: "balanced_ev ev"
  shows "rg (\<lambda>s. s) 1 st (call_function w ev o' f args st)"
  unfolding call_function_def
  apply (intro rg_if rg_Fatal)
  apply (rule rg_cells [where ?st2.0 = "st\<lparr>function_trace := function_trace st @ [o']\<rparr>"])
   apply simp
  apply (rule rg_bind [OF apply_fn_balanced [OF bal]])
  apply (auto intro!: rg_Ok rg_if)
  done

lemma rg_loop_step:
  "rg prj j st2 r \<Longrightarrow> same_cells st1 st2 \<Longrightarrow> j \<le> k \<Longrightarrow> rg prj k st1 r"
  by (rule rg_cells, assumption, rule rg_mono)

lemma let_loop_balanced:
  assumes bal: "balanced_ev ev"
  shows "rg snd 0 st (let_loop ev o' le p st)"
proof (induction p arbitrary: st rule: measure_induct_rule [where f = size])
  case (less p)
  have step: "rg snd k st1 (let_loop ev o' le p' st2)"
    if "size p' < size p" "same_cells st1 st2" "0 \<le> k" for p' st1 st2 k
    using less.IH [OF that(1)] that(2,3) by (rule rg_loop_step)
  show ?case
    apply (subst let_loop.simps)
    apply (cases p; simp add: rg_Ok rg_Fatal)
    apply (intro impI conjI rg_if rg_Ok rg_bind_car rg_bind_ev [where ev = ev, OF bal] rg_bind_pop
        rg_bind_cdr step)
    apply (auto dest: cdr_size)
    done
qed

lemma not_loop_balanced:
  assumes bal: "balanced_ev ev"
  shows "rg flagged 1 st (not_loop w ev env p st)"
proof (induction p arbitrary: st)
  case (Cell a d)
  show ?case
    apply simp
    apply (intro impI conjI rg_if rg_Ok rg_bind_ev [where ev = ev, OF bal] rg_bind_pop
        rg_bind_push [where j = 1] rg_loop_step [OF Cell(2)])
    apply (auto simp: flagged_def)
    done
qed (simp_all add: rg_Ok rg_Fatal flagged_def grows_def)

lemma eval_list_not_balanced:
  assumes bal: "balanced_ev ev"
  shows "rg (\<lambda>s. s) 1 st (eval_list_not w ev env o' st)"
  unfolding eval_list_not_def
  apply (intro rg_bind_cdr)
  apply (rule rg_bind [OF not_loop_balanced [OF bal]])
  apply (auto simp: flagged_def rg_def stack_push_def grows_def split: if_splits)
  done

lemma pop_args_balanced: "rg snd (- int n) st (pop_args n acc st)"
proof (induction n arbitrary: acc st)
  case 0
  show ?case by (simp add: rg_Ok)
next
  case (Suc n)
  show ?case
    apply simp
    apply (rule rg_bind_pop)
     apply simp
    apply (rule rg_mono [OF Suc])
    apply simp
    done
qed

lemma env_literal_loop_balanced:
  assumes bal: "balanced_ev ev"
  shows "rg (\<lambda>s. s) 0 st (env_literal_loop ev env a bs st)"
proof (induction bs arbitrary: st)
  case Nil
  show ?case by (simp add: rg_Ok)
next
  case (Cons b bs)
  obtain k v where b: "b = (k, v)" by (cases b)
  show ?case
    unfolding b
    apply simp
    apply (intro rg_bind_ev [where ev = ev, OF bal] rg_bind_pop)
      apply simp
     apply simp
    apply (rule rg_loop_step [OF Cons])
     apply simp
    apply simp
    done
qed

lemma while_loop_balanced:
  assumes bal: "balanced_ev ev"
  shows "rg (\<lambda>s. s) 0 st (while_loop w ev k env o' st)"
proof (induction k arbitrary: st)
  case 0
  show ?case by (simp add: rg_Timeout)
next
  case (Suc k)
  show ?case
    unfolding while_loop.simps rbind_assoc
    apply (intro rg_if rg_Ok rg_bind_car rg_bind_ev [where ev = ev, OF bal] rg_bind_pop
        rg_bind_cdr rg_push rg_loop_step [OF Suc])
    apply auto
    done
qed

lemma do_loop_rg: "balanced_ev ev \<Longrightarrow> rg (\<lambda>s. s) 1 st (do_loop ev env p st)"
  by (rule rgI) (rule do_loop_balanced)

lemma eval_list_let_balanced:
  assumes bal: "balanced_ev ev"
  shows "rg (\<lambda>s. s) 1 st (eval_list_let ev env o' st)"
  unfolding eval_list_let_def obj_new_environment_def prod.case rbind_assoc
  apply (intro rg_bind_cdr rg_bind_car rg_if rg_Ok)
   apply simp
  apply (rule rg_cells [where ?st2.0 = "st\<lparr>heap := heap st @ [\<lparr>bindings = [], parent = Some env\<rparr>]\<rparr>"])
   apply simp
  apply (rule rg_bind [OF let_loop_balanced [OF bal]])
  apply (auto intro!: rg_if rg_Ok rg_bind_cdr rg_bind_car rg_ev [where ev = ev, OF bal])
  done

lemma eval_list_while_balanced:
  assumes bal: "balanced_ev ev"
  shows "rg (\<lambda>s. s) 1 st (eval_list_while w ev k env o' st)"
  unfolding eval_list_while_def rbind_assoc
  apply (intro rg_bind_cdr rg_bind_car rg_if rg_Ok rg_bind_ev [where ev = ev, OF bal]
      rg_loop_step [OF while_loop_balanced [OF bal]])
  apply auto
  done

lemma obj_match_rg: "rg snd 0 st (obj_match env a v st)"
  by (rule rgI) (use obj_match_cells(1) in \<open>auto simp: grows_def same_cells_def\<close>)

lemma match_loop_balanced:
  assumes bal: "balanced_ev ev"
  shows "rg snd 1 st (match_loop ev env v attempts p st)"
proof (induction p arbitrary: st rule: measure_induct_rule [where f = size])
  case (less p)
  have step: "rg snd k st1 (match_loop ev env v attempts p' st2)"
    if "size p' < size p" "same_cells st1 st2" "1 \<le> k" for p' st1 st2 k
    using less.IH [OF that(1)] that(2,3) by (rule rg_loop_step)
  show ?case
    apply (subst match_loop.simps)
    apply (cases p; simp add: rg_Ok rg_Fatal obj_new_environment_def)
    subgoal for a d
      apply (intro impI)
      apply (rule rg_cells [where ?st2.0 = "st\<lparr>heap := heap st @ [\<lparr>bindings = [], parent = Some env\<rparr>]\<rparr>"])
       apply simp
      apply (rule rg_bind [OF obj_match_rg])
      apply (auto simp: rbind_assoc intro!: rg_if rg_Ok rg_bind_car rg_bind_cdr step
          rg_bind_ev [where ev = ev, OF bal] dest: cdr_size)
      done
    done
qed

lemma match_balanced:
  assumes bal: "balanced_ev ev"
  shows "rg (\<lambda>s. s) 1 st (match ev env v attempts st)"
  unfolding match_def
  apply (rule rg_bind [OF match_loop_balanced [OF bal]])
  apply (auto intro!: rg_if rg_Ok simp: rg_def grows_def)
  done

lemma eval_list_match_balanced:
  assumes bal: "balanced_ev ev"
  shows "rg (\<lambda>s. s) 1 st (eval_list_match ev env o' st)"
  unfolding eval_list_match_def rbind_assoc
  apply (intro rg_bind_cdr rg_bind_car rg_if rg_Ok rg_bind_ev [where ev = ev, OF bal] rg_bind_pop
      rg_loop_step [OF match_balanced [OF bal]])
  apply auto
  done

lemma args_loop_balanced:
  assumes bal: "balanced_ev ev"
  shows "args_loop w ev env ea p count st = Ok (r, count', st') \<Longrightarrow>
     grows (int count' - int count) st st' \<and> count \<le> count' \<and> (r \<longrightarrow> error st' \<noteq> None)"
proof (induction p arbitrary: count st)
  case (Cell a d)
  show ?case
  proof (cases "a = Null \<or> error st \<noteq> None")
    case True
    with Cell.prems show ?thesis by (auto split: if_splits)
  next
    case False
    with Cell.prems obtain st1 where
      s1: "(if ea then ev env a st else stack_push w a st) = Ok st1"
      and r1: "args_loop w ev env ea d (Suc count) st1 = Ok (r, count', st')"
      by (auto simp: rbind_Ok_iff)
    have g1: "grows 1 st st1"
      using s1 grows_ev [OF bal] grows_push by (auto split: if_splits)
    from Cell.IH(2) [OF r1] have g2: "grows (int count' - int (Suc count)) st1 st'"
      and c: "Suc count \<le> count'" and e: "r \<longrightarrow> error st' \<noteq> None" by auto
    from grows_chain2 [OF g1 g2] c e show ?thesis by simp
  qed
qed auto

lemma eval_list_call_balanced:
  assumes bal: "balanced_ev ev"
  shows "rg (\<lambda>s. s) 1 st (eval_list_call w ev env o' st)"
proof (rule rgI)
  fix st' assume r: "eval_list_call w ev env o' st = Ok st'"
  from r obtain head st1 where st1: "ev env head st = Ok st1"
    and r1: "(if error st1 \<noteq> None then Ok st1
       else
         rbind (stack_pop st1) (\<lambda>(callee, st).
           if callee = Null then Ok (set_error ''Can't call NULL.'' o' st)
           else
             rbind (cdr o') (\<lambda>p.
             rbind (args_loop w ev env (\<not> is_macro callee) p 0 st) (\<lambda>(returned, count, st).
               if returned \<or> error st \<noteq> None then Ok st
               else
                 rbind (pop_args count [] st) (\<lambda>(args, st).
                   if is_macro callee then call_macro ev env callee args st
                   else call_function w ev o' callee args st))))) = Ok st'"
    unfolding eval_list_call_def by (auto simp: rbind_Ok_iff)
  have g1: "grows 1 st st1" using bal st1 by (rule grows_ev)
  show "grows 1 st st'"
  proof (cases "error st1 \<noteq> None")
    case True
    with r1 g1 show ?thesis by simp
  next
    case False
    with r1 obtain callee st2 where pop: "stack_pop st1 = Ok (callee, st2)"
      and r2: "(if callee = Null then Ok (set_error ''Can't call NULL.'' o' st2)
           else
             rbind (cdr o') (\<lambda>p.
             rbind (args_loop w ev env (\<not> is_macro callee) p 0 st2) (\<lambda>(returned, count, st).
               if returned \<or> error st \<noteq> None then Ok st
               else
                 rbind (pop_args count [] st) (\<lambda>(args, st).
                   if is_macro callee then call_macro ev env callee args st
                   else call_function w ev o' callee args st)))) = Ok st'"
      by (auto simp: rbind_Ok_iff)
    have g2: "grows (- 1) st1 st2" using pop by (rule grows_pop)
    show ?thesis
    proof (cases "callee = Null")
      case True
      with r2 show ?thesis by auto
    next
      case fn: False
      with r2 obtain p returned count st3 where
        loop: "args_loop w ev env (\<not> is_macro callee) p 0 st2 = Ok (returned, count, st3)"
        and r3: "(if returned \<or> error st3 \<noteq> None then Ok st3
               else
                 rbind (pop_args count [] st3) (\<lambda>(args, st).
                   if is_macro callee then call_macro ev env callee args st
                   else call_function w ev o' callee args st)) = Ok st'"
        by (auto simp: rbind_Ok_iff)
      from args_loop_balanced [OF bal loop]
      have g3: "grows (int count) st2 st3" and e3: "returned \<longrightarrow> error st3 \<noteq> None" by auto
      show ?thesis
      proof (cases "returned \<or> error st3 \<noteq> None")
        case True
        with r3 e3 show ?thesis by auto
      next
        case False
        with r3 obtain args st4 where pa: "pop_args count [] st3 = Ok (args, st4)"
          and r4: "(if is_macro callee then call_macro ev env callee args st4
                   else call_function w ev o' callee args st4) = Ok st'"
          by (auto simp: rbind_Ok_iff)
        have g4: "grows (- int count) st3 st4"
          using rgD [OF pop_args_balanced pa] by simp
        have g5: "grows 1 st4 st'"
          using r4 rgD [OF call_macro_balanced [OF bal]] rgD [OF call_function_balanced [OF bal]]
          by (auto split: if_splits)
        from grows_chain2 [OF grows_chain2 [OF grows_chain2 [OF grows_chain2 [OF g1 g2] g3] g4] g5]
        show ?thesis by simp
      qed
    qed
  qed
qed

lemma eval_list_balanced:
  assumes bal: "balanced_ev ev"
  shows "rg (\<lambda>s. s) 1 st (eval_list w ev k env o' st)"
  unfolding eval_list_def
  by (intro rg_bind_car rg_bind_cdr rg_if rg_push do_loop_rg [OF bal] eval_list_let_balanced [OF bal]
      eval_list_not_balanced [OF bal] eval_list_quote_balanced eval_list_while_balanced [OF bal]
      eval_list_if_balanced [OF bal] eval_list_match_balanced [OF bal]
      eval_list_reset_balanced [OF bal] eval_list_fn_balanced eval_list_macro_balanced
      eval_list_def_balanced [OF bal] eval_list_defp_balanced eval_list_call_balanced [OF bal])
    simp

lemma eval_internal_body_balanced:
  assumes bal: "balanced_ev ev"
  shows "rg (\<lambda>s. s) 1 st (eval_internal_body w ev k env o' st)"
proof (cases "error st \<noteq> None")
  case True
  then show ?thesis by (simp add: eval_internal_body_def rg_Ok)
next
  case False
  show ?thesis
  proof (cases o')
    case (EnvV a)
    have h: "rg (\<lambda>s. s) 1 st
        (rbind (env_literal_loop ev env (length (heap st)) bs
                  (st\<lparr>heap := heap st @ [e]\<rparr>))
           (\<lambda>st. stack_push w (EnvV (length (heap st0))) st))" for bs e st0
      apply (rule rg_cells [where ?st2.0 = "st\<lparr>heap := heap st @ [e]\<rparr>"])
       apply simp
      apply (rule rg_bind [OF env_literal_loop_balanced [OF bal]])
      apply (rule rg_push)
      apply simp
      done
    from False EnvV h [of "bindings (heap st ! a)" "heap st ! a" st] show ?thesis
      by (auto simp: eval_internal_body_def obj_copy_env_def intro!: rg_push)
  qed (use False in \<open>auto simp: eval_internal_body_def Let_def intro!: rg_push eval_list_balanced [OF bal]\<close>)
qed

lemma eval_internal_balanced: "balanced_ev (eval_internal w n)"
proof (induction n)
  case 0
  show ?case by (simp add: balanced_ev_def)
next
  case (Suc n)
  show ?case
    unfolding balanced_ev_def
  proof (intro allI impI)
    fix env x st st'
    assume "eval_internal w (Suc n) env x st = Ok st'"
    then have "eval_internal_body w (eval_internal w n) n env x st = Ok st'" by simp
    with eval_internal_body_balanced [OF Suc] show "grows 1 st st'" by (rule rgD)
  qed
qed

section \<open>Lemmas for the single forms\<close>

lemma env_extend_other: "b \<noteq> a \<Longrightarrow> heap (env_extend a k v st) ! b = heap st ! b"
  by (simp add: env_extend_def)

lemma env_extend_stack_upd [simp]:
  "env_extend a k v (st\<lparr>stack := s\<rparr>) = (env_extend a k v st)\<lparr>stack := s\<rparr>"
  by (simp add: env_extend_def)

lemma env_lookup_env_extend:
  assumes "a < length (heap st)"
  shows "env_lookup (env_extend a k v st) a k = v"
proof -
  obtain m where m: "length (heap st) = Suc m"
    using assms by (cases "length (heap st)") auto
  show ?thesis
    using assms m
    by (simp add: env_lookup_def env_lookup_binding_def env_extend_def binding_at_def obj_eq_def)
qed

lemma eval_reset_cells: "eval w m env G (reset_cells st) = eval w m env G st"
  by (simp add: eval_def reset_cells_def)

lemma let_loop_spec:
  "\<forall>(s, e) \<in> set pairs. is_sym s \<Longrightarrow>
   let_loop ev o' let_env (mk_list (binding_forms pairs)) st = let_bindings_spec ev let_env pairs st"
proof (induction pairs arbitrary: st)
  case Nil
  show ?case by (subst let_loop.simps) simp
next
  case (Cons p pairs)
  obtain s e where p: "p = (s, e)" by (cases p)
  from Cons.prems p have s: "is_sym s" and rest: "\<forall>(s, e) \<in> set pairs. is_sym s" by auto
  from s have sn: "s \<noteq> Null" by (auto simp: is_sym_def)
  show ?case
    unfolding p
    apply (subst let_loop.simps)
    apply (simp add: s sn Cons.IH [OF rest] cong: if_cong)
    done
qed

lemma args_loop_unevaluated:
  "items p = Ok args \<Longrightarrow> error st = None \<Longrightarrow> length (stack st) + length args \<le> STACK_SIZE w \<Longrightarrow>
   args_loop w ev env False p count st
     = Ok (False, count + length args, st\<lparr>stack := rev args @ stack st\<rparr>)"
proof (induction p arbitrary: args count st)
  case (Cell a d)
  show ?case
  proof (cases "a = Null")
    case True
    with Cell.prems show ?thesis by simp
  next
    case False
    with Cell.prems obtain xs where xs: "items d = Ok xs" and args: "args = a # xs"
      by (auto simp: rbind_Ok_iff)
    let ?st = "st\<lparr>stack := a # stack st\<rparr>"
    have "args_loop w ev env False d (Suc count) ?st
        = Ok (False, Suc count + length xs, ?st\<lparr>stack := rev xs @ stack ?st\<rparr>)"
      using Cell.prems args by (intro Cell.IH(2) [OF xs]) auto
    then show ?thesis
      using False Cell.prems args by (simp add: stack_push_def)
  qed
qed simp_all

lemma pop_args_rev:
  "error st = None \<Longrightarrow>
   pop_args (length xs) acc (st\<lparr>stack := rev xs @ stk\<rparr>) = Ok (xs @ acc, st\<lparr>stack := stk\<rparr>)"
proof (induction xs arbitrary: acc rule: rev_induct)
  case Nil
  then show ?case by simp
next
  case (snoc x xs)
  then show ?case by (simp add: stack_pop_def)
qed

lemma mk_list_not_Null [simp]: "mk_list xs \<noteq> Null"
  by (cases xs) auto

lemma has_car_mk_list: "Null \<notin> set xs \<Longrightarrow> has_car (mk_list xs) = Ok (xs \<noteq> [])"
  by (cases xs) (auto simp: has_car_def)

lemma marshal_loop_mk_list:
  "Null \<notin> set ts \<Longrightarrow> \<forall>(t, a) \<in> set (zip ts args). \<exists>c. marshal_arg t a st = Ok (Inr c) \<Longrightarrow>
   (length ts < length args \<longrightarrow>
      marshal_loop f (mk_list ts) args vals st = Ok (Inl (set_error ''Too many arguments to '' f st)))
   \<and> (length args \<le> length ts \<longrightarrow>
      (\<exists>cs. length cs = length args \<and>
         marshal_loop f (mk_list ts) args vals st
           = Ok (Inr (mk_list (drop (length args) ts), vals @ cs))))"
proof (induction args arbitrary: ts vals)
  case Nil
  then show ?case by simp
next
  case (Cons a as)
  show ?case
  proof (cases ts)
    case Nil
    then show ?thesis by simp
  next
    case (Cons t ts')
    with Cons.prems obtain c where c: "marshal_arg t a st = Ok (Inr c)" by auto
    from Cons Cons.prems have p: "Null \<notin> set ts'"
      "\<forall>(t, a) \<in> set (zip ts' as). \<exists>c. marshal_arg t a st = Ok (Inr c)" by auto
    note ih = Cons.IH [OF p, of "vals @ [c]"]
    show ?thesis
    proof (intro conjI impI)
      assume "length ts < length (a # as)"
      then have "length ts' < length as" using Cons by simp
      with ih show "marshal_loop f (mk_list ts) (a # as) vals st
          = Ok (Inl (set_error ''Too many arguments to '' f st))"
        using Cons c by simp
    next
      assume "length (a # as) \<le> length ts"
      then have "length as \<le> length ts'" using Cons by simp
      with ih obtain cs where cs: "length cs = length as"
        "marshal_loop f (mk_list ts') as (vals @ [c]) st
           = Ok (Inr (mk_list (drop (length as) ts'), (vals @ [c]) @ cs))" by blast
      then have "length (c # cs) = length (a # as) \<and>
         marshal_loop f (mk_list ts) (a # as) vals st
           = Ok (Inr (mk_list (drop (length (a # as)) ts), vals @ (c # cs)))"
        using Cons c by simp
      then show "\<exists>cs. length cs = length (a # as) \<and>
         marshal_loop f (mk_list ts) (a # as) vals st
           = Ok (Inr (mk_list (drop (length (a # as)) ts), vals @ cs))" by blast
    qed
  qed
qed

section \<open>Stack balance of the driver\<close>

text \<open>
  Claim C1. For every form F and environment env, a call of the driver \<open>eval\<close> that returns
  without an error has left the value stack as eval set it on entry (empty: the net change
  is zero), and the value it returns is the single value eval_internal left there. A call
  that returns with the error cell set returns nil. In both cases a following call of eval
  behaves as from the state with the error cell, the stack and the trace cleared: what a
  failing call leaves in these cells has no effect on it.
\<close>

theorem eval_stack_balance:
  assumes "eval w n env F st = Ok (v, st')"
  shows "(error st' = None \<longrightarrow>
            stack st' = [] \<and>
            (\<exists>st1. eval_internal w n env F (reset_cells st) = Ok st1 \<and> stack st1 = [v]
                  \<and> st' = st1\<lparr>stack := []\<rparr>))
       \<and> (error st' \<noteq> None \<longrightarrow> v = nil)
       \<and> eval w m env' G st' = eval w m env' G (reset_cells st')"
proof -
  from assms obtain st1 where run: "eval_internal w n env F (reset_cells st) = Ok st1"
    and pop: "stack_pop st1 = Ok (v, st')"
    by (auto simp: eval_def reset_cells_def rbind_Ok_iff)
  have g: "grows 1 (reset_cells st) st1"
    using eval_internal_balanced run by (rule grows_ev)
  have ok: "stack st' = [] \<and> stack st1 = [v] \<and> st' = st1\<lparr>stack := []\<rparr>" if "error st' = None"
  proof -
    from pop that have e1: "error st1 = None"
      by (auto simp: stack_pop_def split: if_splits list.splits)
    with g have "length (stack st1) \<le> 1" by (simp add: grows_def reset_cells_def)
    with pop e1 show ?thesis
      by (cases "stack st1") (auto simp: stack_pop_def)
  qed
  have bad: "v = nil" if "error st' \<noteq> None"
    using pop that by (auto simp: stack_pop_def split: if_splits list.splits)
  from run ok bad eval_reset_cells [of w m env' G st'] show ?thesis by auto
qed

theorem eval_stack_balance_witness:
  "eval list_world (Suc 0) 0 (Sym ''foo'') start_state
     = Ok (nil, start_state\<lparr>error := Some [Truncated 255
                                     [Text (''Can't find '' @ [CHR 0x27]), Rendered (Sym ''foo''),
                                      Text ([CHR 0x27] @ '' in environment.'')]],
                          stack := [nil]\<rparr>)
   \<and> eval list_world (Suc 0) 0 (IntV 5)
        (start_state\<lparr>error := Some [Truncated 255
                                     [Text (''Can't find '' @ [CHR 0x27]), Rendered (Sym ''foo''),
                                      Text ([CHR 0x27] @ '' in environment.'')]],
                          stack := [nil]\<rparr>)
     = Ok (IntV 5, start_state)"
proof -
  let ?bad = "start_state\<lparr>error := Some [Truncated 255
                                     [Text (''Can't find '' @ [CHR 0x27]), Rendered (Sym ''foo''),
                                      Text ([CHR 0x27] @ '' in environment.'')]],
                          stack := [nil]\<rparr>"
  have first: "eval list_world (Suc 0) 0 (Sym ''foo'') start_state = Ok (nil, ?bad)"
    by code_simp
  have "eval list_world (Suc 0) 0 (IntV 5) ?bad = eval list_world (Suc 0) 0 (IntV 5) (reset_cells ?bad)"
    using eval_stack_balance [OF first, of "Suc 0" 0 "IntV 5"] by simp
  also have "\<dots> = Ok (IntV 5, start_state)"
    by code_simp
  finally show ?thesis using first by simp
qed

section \<open>Macro calls\<close>

text \<open>
  Claim C2. For every call whose head is not a special form and evaluates to a Macro value,
  the argument forms are passed unevaluated (\<open>args\<close> are the elements of the form's cdr,
  and the state after the head is all the argument phase sees); a new environment whose
  parent is the macro's captured environment is extended with the parameter bindings, the
  body is evaluated there, the expansion is popped and evaluated in the caller's
  environment, and that evaluation is the result of the call. In particular, after
  \<open>(def m (macro () (quote (quote foo))))\<close> the call \<open>(m)\<close> evaluates to the symbol foo, and
  with \<open>fn\<close> in place of \<open>macro\<close> it evaluates to the list \<open>(quote foo)\<close>.
\<close>

theorem macro_two_phase:
  "(head \<noteq> Null \<and> head \<notin> Sym ` set special_forms \<and> error st = None
      \<and> eval_internal w n env head st = Ok st1 \<and> error st1 = None
      \<and> stack st1 = Macro params body fenv code # stk
      \<and> items p = Ok args \<and> length stk + length args \<le> STACK_SIZE w \<longrightarrow>
    eval_internal w (Suc n) env (Cell head p) st =
      (case obj_new_environment (Some fenv) (st1\<lparr>stack := stk\<rparr>) of (calling_env, st2) \<Rightarrow>
         rbind (eval_internal w n calling_env body
                  (env_extend_with_args calling_env (Macro params body fenv code) args st2))
           (\<lambda>st3. if error st3 \<noteq> None then Ok st3
                  else rbind (stack_pop st3) (\<lambda>(expanded, st4). eval_internal w n env expanded st4))))
   \<and> outcome (eval list_world 4 0
        (mk_list [Sym ''do'',
           mk_list [Sym ''def'', Sym ''m'',
             mk_list [Sym ''macro'', mk_list [],
               mk_list [Sym ''quote'', mk_list [Sym ''quote'', Sym ''foo'']]]],
           mk_list [Sym ''m'']]) start_state)
      = Ok (Sym ''foo'', None)
   \<and> outcome (eval list_world 4 0
        (mk_list [Sym ''do'',
           mk_list [Sym ''def'', Sym ''m'',
             mk_list [Sym ''fn'', mk_list [],
               mk_list [Sym ''quote'', mk_list [Sym ''quote'', Sym ''foo'']]]],
           mk_list [Sym ''m'']]) start_state)
      = Ok (mk_list [Sym ''quote'', Sym ''foo''], None)"
proof -
  have general: "eval_internal w (Suc n) env (Cell head p) st =
      (case obj_new_environment (Some fenv) (st1\<lparr>stack := stk\<rparr>) of (calling_env, st2) \<Rightarrow>
         rbind (eval_internal w n calling_env body
                  (env_extend_with_args calling_env (Macro params body fenv code) args st2))
           (\<lambda>st3. if error st3 \<noteq> None then Ok st3
                  else rbind (stack_pop st3) (\<lambda>(expanded, st4). eval_internal w n env expanded st4)))"
    if h: "head \<noteq> Null" "head \<notin> Sym ` set special_forms" "error st = None"
      "eval_internal w n env head st = Ok st1" "error st1 = None"
      "stack st1 = Macro params body fenv code # stk"
      "items p = Ok args" "length stk + length args \<le> STACK_SIZE w"
  proof -
    have sp: "head \<noteq> Sym ''do''" "head \<noteq> Sym ''let''" "head \<noteq> Sym ''not''"
      "head \<noteq> Sym ''quote''" "head \<noteq> Sym ''while''" "head \<noteq> Sym ''if''"
      "head \<noteq> Sym ''match''" "head \<noteq> Sym ''reset!''" "head \<noteq> Sym ''fn''"
      "head \<noteq> Sym ''macro''" "head \<noteq> Sym ''def''" "head \<noteq> Sym ''def?''"
      using h(2) by (auto simp: special_forms_def)
    let ?st = "st1\<lparr>stack := stk\<rparr>"
    have e: "error ?st = None" using h(5) by simp
    have room: "length (stack ?st) + length args \<le> STACK_SIZE w" using h(8) by simp
    have loop: "args_loop w (eval_internal w n) env False p 0 ?st
        = Ok (False, length args, ?st\<lparr>stack := rev args @ stk\<rparr>)"
      using args_loop_unevaluated [OF h(7) e room, of "eval_internal w n" env 0] by simp
    have pop: "pop_args (length args) [] (?st\<lparr>stack := rev args @ stk\<rparr>) = Ok (args, ?st)"
      using pop_args_rev [OF e, of args "[]" stk] by simp
    have el: "eval_internal w (Suc n) env (Cell head p) st
        = eval_list_call w (eval_internal w n) env (Cell head p) st"
      using h(1,3) sp by (simp add: eval_internal_body_def eval_list_def)
    show ?thesis
      unfolding el
      using h(4,5,6) loop pop
      by (simp add: eval_list_call_def stack_pop_def is_macro_def call_macro_def)
  qed
  have m: "outcome (eval list_world 4 0
        (mk_list [Sym ''do'',
           mk_list [Sym ''def'', Sym ''m'',
             mk_list [Sym ''macro'', mk_list [],
               mk_list [Sym ''quote'', mk_list [Sym ''quote'', Sym ''foo'']]]],
           mk_list [Sym ''m'']]) start_state)
      = Ok (Sym ''foo'', None)"
    by code_simp
  have f: "outcome (eval list_world 4 0
        (mk_list [Sym ''do'',
           mk_list [Sym ''def'', Sym ''m'',
             mk_list [Sym ''fn'', mk_list [],
               mk_list [Sym ''quote'', mk_list [Sym ''quote'', Sym ''foo'']]]],
           mk_list [Sym ''m'']]) start_state)
      = Ok (mk_list [Sym ''quote'', Sym ''foo''], None)"
    by code_simp
  from general m f show ?thesis by blast
qed

theorem macro_two_phase_witness:
  "eval_internal list_world (Suc (Suc 0)) 0
     (mk_list [mk_list [Sym ''macro'', mk_list [],
                 mk_list [Sym ''quote'', mk_list [Sym ''quote'', Sym ''foo'']]]]) start_state
   = Ok (start_state\<lparr>stack := [Sym ''foo''],
           heap := heap start_state @ [\<lparr>bindings = [], parent = Some 0\<rparr>]\<rparr>)"
proof -
  let ?body = "mk_list [Sym ''quote'', mk_list [Sym ''quote'', Sym ''foo'']]"
  let ?head = "mk_list [Sym ''macro'', mk_list [], ?body]"
  let ?st1 = "start_state\<lparr>stack := [Macro (mk_list []) ?body 0 ?head]\<rparr>"
  have a: "?head \<noteq> Null" "?head \<notin> Sym ` set special_forms" "error start_state = None"
    by (auto simp: start_state_def)
  have b: "eval_internal list_world (Suc 0) 0 ?head start_state = Ok ?st1"
    by code_simp
  have c: "error ?st1 = None" "stack ?st1 = Macro (mk_list []) ?body 0 ?head # []"
    "items (mk_list []) = Ok []" "length ([] :: obj list) + length ([] :: obj list) \<le> STACK_SIZE list_world"
    by (simp_all add: start_state_def)
  have "eval_internal list_world (Suc (Suc 0)) 0 (Cell ?head (mk_list [])) start_state =
      (case obj_new_environment (Some 0) (?st1\<lparr>stack := []\<rparr>) of (calling_env, st2) \<Rightarrow>
         rbind (eval_internal list_world (Suc 0) calling_env ?body
                  (env_extend_with_args calling_env (Macro (mk_list []) ?body 0 ?head) [] st2))
           (\<lambda>st3. if error st3 \<noteq> None then Ok st3
                  else rbind (stack_pop st3)
                    (\<lambda>(expanded, st4). eval_internal list_world (Suc 0) 0 expanded st4)))"
    using macro_two_phase [of ?head start_state list_world "Suc 0" 0 ?st1 "mk_list []" ?body 0
        ?head "[]" "mk_list []" "[]"] a b c
    by blast
  also have "\<dots> = Ok (start_state\<lparr>stack := [Sym ''foo''],
           heap := heap start_state @ [\<lparr>bindings = [], parent = Some 0\<rparr>]\<rparr>)"
    by code_simp
  finally show ?thesis by simp
qed

section \<open>The match form\<close>

text \<open>
  Claim C3. A match clause list in which a pattern has no accompanying result is meant to
  raise an error (match sets "Uneven nr of forms in match."). The check comes after the
  attempt and tests the cdr for NULL, so for \<open>(match 1 x)\<close>, whose lone pattern x matches,
  the absent result is evaluated instead: the form returns nil and no error is raised.
\<close>

theorem match_uneven_unnoticed:
  "outcome (eval list_world 3 0 (mk_list [Sym ''match'', IntV 1, Sym ''x'']) start_state)
     = Ok (nil, None)"
  by code_simp

section \<open>The rest pattern\<close>

text \<open>
  Claim C4, as amended. In list-pattern matching, when the current pattern head is the
  symbol \<open>&\<close> and a next pattern element exists, the result is exactly the result of matching
  that element against the remaining subject tail, whatever follows it in the pattern. The
  clauses of a match form are flat (pattern, result, pattern, result, ...):
  \<open>(match (list 1 2 3) (a & r) r)\<close> returns the list \<open>(2 3)\<close> and \<open>(match (list 1) (a & r) r)\<close>
  returns the empty list.
\<close>

theorem rest_pattern_match:
  "(obj_eq a ampersand \<and> x \<noteq> Null \<longrightarrow>
      obj_match_lists env (Cell a (Cell x rest)) p2 st = obj_match env x p2 st)
   \<and> outcome (eval list_world 5 0
        (mk_list [Sym ''match'', mk_list [Sym ''list'', IntV 1, IntV 2, IntV 3],
                  mk_list [Sym ''a'', Sym ''&'', Sym ''r''], Sym ''r'']) start_state)
      = Ok (Cell (IntV 2) (Cell (IntV 3) nil), None)
   \<and> outcome (eval list_world 5 0
        (mk_list [Sym ''match'', mk_list [Sym ''list'', IntV 1],
                  mk_list [Sym ''a'', Sym ''&'', Sym ''r''], Sym ''r'']) start_state)
      = Ok (nil, None)"
proof -
  have g: "obj_eq a ampersand \<and> x \<noteq> Null \<longrightarrow>
      obj_match_lists env (Cell a (Cell x rest)) p2 st = obj_match env x p2 st"
  proof
    assume h: "obj_eq a ampersand \<and> x \<noteq> Null"
    then have "a \<noteq> Null" by (auto simp: obj_eq_def ampersand_def)
    with h show "obj_match_lists env (Cell a (Cell x rest)) p2 st = obj_match env x p2 st"
      by (subst obj_match_lists.simps) (simp add: rest_pattern_def)
  qed
  have e1: "outcome (eval list_world 5 0
        (mk_list [Sym ''match'', mk_list [Sym ''list'', IntV 1, IntV 2, IntV 3],
                  mk_list [Sym ''a'', Sym ''&'', Sym ''r''], Sym ''r'']) start_state)
      = Ok (Cell (IntV 2) (Cell (IntV 3) nil), None)"
    by code_simp
  have e2: "outcome (eval list_world 5 0
        (mk_list [Sym ''match'', mk_list [Sym ''list'', IntV 1],
                  mk_list [Sym ''a'', Sym ''&'', Sym ''r''], Sym ''r'']) start_state)
      = Ok (nil, None)"
    by code_simp
  from g e1 e2 show ?thesis by blast
qed

theorem rest_pattern_match_witness:
  "obj_match_lists 1 (mk_list [Sym ''&'', Sym ''r'']) (mk_list [IntV 2, IntV 3])
      (snd (obj_new_environment (Some 0) start_state))
   = Ok (True, env_extend 1 (Sym ''r'') (mk_list [IntV 2, IntV 3])
      (snd (obj_new_environment (Some 0) start_state)))"
proof -
  have "obj_eq (Sym ''&'') ampersand \<and> Sym ''r'' \<noteq> Null"
    by (simp add: obj_eq_def ampersand_def)
  with rest_pattern_match [of "Sym ''&''" "Sym ''r''" 1 "Cell Null Null" "mk_list [IntV 2, IntV 3]"
      "snd (obj_new_environment (Some 0) start_state)"]
  show ?thesis by (simp add: obj_match.simps)
qed

text \<open>The form as the claim writes it, with the clause in parentheses: the parenthesised
  clause is one pattern with no result, it does not match the list, and the form fails.\<close>

theorem rest_pattern_literal_counterexample:
  "outcome (eval list_world 5 0
        (mk_list [Sym ''match'', mk_list [Sym ''list'', IntV 1, IntV 2, IntV 3],
                  mk_list [mk_list [Sym ''a'', Sym ''&'', Sym ''r''], Sym ''r'']]) start_state)
      = Ok (nil, Some [Text ''Failed to find a suitable match for: '',
                        Rendered (Cell (IntV 1) (Cell (IntV 2) (Cell (IntV 3) nil)))])"
  by code_simp

section \<open>The let form\<close>

text \<open>
  Claim C5. An uneven binding list of a let form is meant to raise an error (eval_list sets
  "Uneven nr of forms in let: "). The check tests the cdr of the binder's cell for NULL,
  and a list ends in an empty cell, so for \<open>(let (x) x)\<close> the absent value expression is
  evaluated instead: x is bound to nil, the form returns nil and no error is raised.
\<close>

theorem let_uneven_unnoticed:
  "outcome (eval list_world 3 0 (mk_list [Sym ''let'', mk_list [Sym ''x''], Sym ''x'']) start_state)
     = Ok (nil, None)"
  by code_simp

text \<open>
  Claim C6. For every let form with symbols as binders and a body, what eval_list does is
  what the specification says: a child environment of the enclosing one is created, the
  binding expressions are evaluated left to right in it as it grows, each value bound
  before the next expression is evaluated, and the body is evaluated in the final
  environment. A binding is visible to what is evaluated after it: a lookup of the symbol
  in the extended environment gives the value.
\<close>

theorem let_sequential:
  assumes "error st = None" and "\<forall>(s, e) \<in> set pairs. is_sym s" and "body \<noteq> Null"
  shows "eval_internal w (Suc n) env
           (Cell (Sym ''let'') (Cell (mk_list (binding_forms pairs)) (Cell body rest))) st
         = let_spec (eval_internal w n) env pairs body st
       \<and> (\<forall>le k v s'. le < length (heap s') \<longrightarrow> env_lookup (env_extend le k v s') le k = v)"
proof -
  have nn: "mk_list (binding_forms pairs) \<noteq> Null" by (cases pairs) auto
  show ?thesis
    using assms nn
    by (simp add: eval_internal_body_def eval_list_def eval_list_let_def let_spec_def
        let_loop_spec env_lookup_env_extend split: prod.splits cong: if_cong)
qed

theorem let_sequential_witness:
  "eval_internal list_world (Suc (Suc 0)) 0
     (mk_list [Sym ''let'', mk_list [Sym ''x'', IntV 1, Sym ''y'', Sym ''x''], Sym ''y'']) start_state
   = Ok (start_state\<lparr>stack := [IntV 1],
          heap := heap start_state @
            [\<lparr>bindings = [(Sym ''y'', IntV 1), (Sym ''x'', IntV 1)], parent = Some 0\<rparr>]\<rparr>)"
proof -
  have "eval_internal list_world (Suc (Suc 0)) 0
     (mk_list [Sym ''let'', mk_list [Sym ''x'', IntV 1, Sym ''y'', Sym ''x''], Sym ''y'']) start_state
     = let_spec (eval_internal list_world (Suc 0)) 0 [(Sym ''x'', IntV 1), (Sym ''y'', Sym ''x'')]
         (Sym ''y'') start_state"
    using let_sequential [of start_state "[(Sym ''x'', IntV 1), (Sym ''y'', Sym ''x'')]" "Sym ''y''"
      list_world "Suc 0" 0 "Cell Null Null"]
    by (simp add: start_state_def is_sym_def)
  also have "\<dots> = Ok (start_state\<lparr>stack := [IntV 1],
          heap := heap start_state @
            [\<lparr>bindings = [(Sym ''y'', IntV 1), (Sym ''x'', IntV 1)], parent = Some 0\<rparr>]\<rparr>)"
    by code_simp
  finally show ?thesis .
qed

section \<open>Foreign functions: the arity check\<close>

text \<open>
  Claim C7, as amended. For every application of a Foreign function whose declared
  argument types are a list of types and whose arguments, as far as both lists go, have
  the types declared, an arity mismatch is an error: "Too many arguments" is raised if
  the types run out before the arguments, and "Too few arguments" is raised if types
  remain unconsumed after all arguments are marshalled; with as many arguments as types
  the native function is called. The walk over the type list advances the type pointer
  only when a cdr exists, and an argument met at a type pointer with no cdr is one too many.
\<close>

theorem foreign_arity:
  assumes "Null \<notin> set ts" and "rt \<noteq> Null"
    and "\<forall>(t, a) \<in> set (zip ts args). \<exists>c. marshal_arg t a st = Ok (Inr c)"
  shows "(length ts < length args \<longrightarrow>
            apply_foreign w (Foreign True (Some fp) (mk_list ts) rt) args st
              = Ok (set_error ''Too many arguments to '' (Foreign True (Some fp) (mk_list ts) rt) st))
       \<and> (length args < length ts \<longrightarrow>
            apply_foreign w (Foreign True (Some fp) (mk_list ts) rt) args st
              = Ok (set_error ''Too few arguments to '' (Foreign True (Some fp) (mk_list ts) rt) st))
       \<and> (length args = length ts \<longrightarrow>
            (\<exists>vals. length vals = length args \<and>
               apply_foreign w (Foreign True (Some fp) (mk_list ts) rt) args st
                 = unmarshal w fp rt vals st))
       \<and> (\<forall>p a as vals. p = Null \<or> cdr p = Ok Null \<longrightarrow>
            marshal_loop (Foreign True (Some fp) (mk_list ts) rt) p (a # as) vals st
              = Ok (Inl (set_error ''Too many arguments to ''
                     (Foreign True (Some fp) (mk_list ts) rt) st)))"
proof -
  let ?f = "Foreign True (Some fp) (mk_list ts) rt"
  note ml = marshal_loop_mk_list [OF assms(1) assms(3), of ?f "[]"]
  have many: "length ts < length args \<longrightarrow>
      apply_foreign w ?f args st = Ok (set_error ''Too many arguments to '' ?f st)"
    using ml assms(2) by (simp add: apply_foreign_def)
  have few: "length args < length ts \<longrightarrow>
      apply_foreign w ?f args st = Ok (set_error ''Too few arguments to '' ?f st)"
  proof
    assume l: "length args < length ts"
    with ml obtain cs where cs: "marshal_loop ?f (mk_list ts) args [] st
        = Ok (Inr (mk_list (drop (length args) ts), [] @ cs))" by auto
    have "Null \<notin> set (drop (length args) ts)" using assms(1) by (auto dest: in_set_dropD)
    then have "has_car (mk_list (drop (length args) ts)) = Ok True"
      using l by (simp add: has_car_mk_list)
    with cs show "apply_foreign w ?f args st = Ok (set_error ''Too few arguments to '' ?f st)"
      using assms(2) by (simp add: apply_foreign_def)
  qed
  have same: "length args = length ts \<longrightarrow>
      (\<exists>vals. length vals = length args \<and> apply_foreign w ?f args st = unmarshal w fp rt vals st)"
  proof
    assume l: "length args = length ts"
    with ml obtain cs where cs: "length cs = length args" "marshal_loop ?f (mk_list ts) args [] st
        = Ok (Inr (mk_list (drop (length args) ts), [] @ cs))" by auto
    have "has_car (mk_list (drop (length args) ts)) = Ok False"
      using l by (simp add: has_car_def)
    with cs have "apply_foreign w ?f args st = unmarshal w fp rt cs st"
      using assms(2) by (simp add: apply_foreign_def)
    with cs(1) show "\<exists>vals. length vals = length args \<and>
        apply_foreign w ?f args st = unmarshal w fp rt vals st" by blast
  qed
  have walk: "\<forall>p a as vals. p = Null \<or> cdr p = Ok Null \<longrightarrow>
      marshal_loop ?f p (a # as) vals st = Ok (Inl (set_error ''Too many arguments to '' ?f st))"
    by auto
  from many few same walk show ?thesis by blast
qed

theorem foreign_arity_witness:
  "apply_foreign list_world (Foreign True (Some 0) (mk_list [type_int, type_int]) type_int)
     [IntV 1, IntV 2, IntV 3] start_state
   = Ok (set_error ''Too many arguments to ''
      (Foreign True (Some 0) (mk_list [type_int, type_int]) type_int) start_state)
   \<and> apply_foreign list_world (Foreign True (Some 0) (mk_list [type_int, type_int]) type_int)
     [IntV 1] start_state
   = Ok (set_error ''Too few arguments to ''
      (Foreign True (Some 0) (mk_list [type_int, type_int]) type_int) start_state)"
proof -
  have a: "Null \<notin> set [type_int, type_int]" and b: "type_int \<noteq> Null"
    by (simp_all add: type_int_def)
  have c3: "\<forall>(t, a) \<in> set (zip [type_int, type_int] [IntV 1, IntV 2, IntV 3]).
      \<exists>c. marshal_arg t a start_state = Ok (Inr c)"
    by (simp add: marshal_arg_def type_int_def obj_eq_def)
  have c1: "\<forall>(t, a) \<in> set (zip [type_int, type_int] [IntV 1]).
      \<exists>c. marshal_arg t a start_state = Ok (Inr c)"
    by (simp add: marshal_arg_def type_int_def obj_eq_def)
  show ?thesis
    using foreign_arity [OF a b c3, of list_world 0] foreign_arity [OF a b c1, of list_world 0]
    by simp
qed

text \<open>The claim as first written raises "Too many arguments" when the arguments run out
  before the types. With one argument for two declared types the error is the other one.\<close>

theorem foreign_arity_counterexample:
  "apply_foreign list_world (Foreign True (Some 0) (mk_list [type_int, type_int]) type_int)
     [IntV 1] start_state
   = Ok (set_error ''Too few arguments to ''
      (Foreign True (Some 0) (mk_list [type_int, type_int]) type_int) start_state)
   \<and> apply_foreign list_world (Foreign True (Some 0) (mk_list [type_int, type_int]) type_int)
     [IntV 1] start_state
   \<noteq> Ok (set_error ''Too many arguments to ''
      (Foreign True (Some 0) (mk_list [type_int, type_int]) type_int) start_state)"
  by code_simp

section \<open>The def form\<close>

text \<open>
  Claim C8. For every \<open>(def s e)\<close> with s a symbol, e is evaluated first. If that leaves an
  error, the form returns the state as the evaluation of e left it: def creates no
  binding. On success the value is popped, s is bound to it in the global environment
  (a lookup of s there gives the value, and no other environment changes) and the value
  is pushed as the result of the form.
\<close>

theorem def_global:
  assumes "error st = None"
  shows "(eval_internal w n env e st = Ok st1 \<and> error st1 \<noteq> None \<longrightarrow>
           eval_internal w (Suc n) env (Cell (Sym ''def'') (Cell (Sym s) (Cell e rest))) st = Ok st1)
       \<and> (eval_internal w n env e st = Ok st1 \<and> error st1 = None \<and> stack st1 = v # stk
            \<and> length stk < STACK_SIZE w \<longrightarrow>
           eval_internal w (Suc n) env (Cell (Sym ''def'') (Cell (Sym s) (Cell e rest))) st
             = Ok (global_env_extend (Sym s) v st1)
           \<and> stack (global_env_extend (Sym s) v st1) = v # stk
           \<and> (global_env st1 < length (heap st1) \<longrightarrow>
                env_lookup (global_env_extend (Sym s) v st1) (global_env st1) (Sym s) = v)
           \<and> (\<forall>a. a \<noteq> global_env st1 \<longrightarrow>
                heap (global_env_extend (Sym s) v st1) ! a = heap st1 ! a))"
  using assms
  by (auto simp add: eval_internal_body_def eval_list_def eval_list_def_def is_sym_def
      stack_pop_def stack_push_def global_env_extend_def env_lookup_env_extend env_extend_other)

theorem def_global_witness:
  "eval_internal list_world (Suc (Suc 0)) 0 (mk_list [Sym ''def'', Sym ''a'', IntV 7]) start_state
     = Ok (global_env_extend (Sym ''a'') (IntV 7) (start_state\<lparr>stack := [IntV 7]\<rparr>))
   \<and> env_lookup (global_env_extend (Sym ''a'') (IntV 7) (start_state\<lparr>stack := [IntV 7]\<rparr>)) 0
        (Sym ''a'') = IntV 7
   \<and> eval_internal list_world (Suc (Suc 0)) 0 (mk_list [Sym ''def'', Sym ''a'', Sym ''b'']) start_state
     = Ok (start_state\<lparr>error := Some [Truncated 255
                                     [Text (''Can't find '' @ [CHR 0x27]), Rendered (Sym ''b''),
                                      Text ([CHR 0x27] @ '' in environment.'')]],
                          stack := [nil]\<rparr>)"
proof -
  let ?bad = "start_state\<lparr>error := Some [Truncated 255
                                     [Text (''Can't find '' @ [CHR 0x27]), Rendered (Sym ''b''),
                                      Text ([CHR 0x27] @ '' in environment.'')]],
                          stack := [nil]\<rparr>"
  have e: "error start_state = None" by (simp add: start_state_def)
  have ok: "eval_internal list_world (Suc 0) 0 (IntV 7) start_state = Ok (start_state\<lparr>stack := [IntV 7]\<rparr>)"
    by code_simp
  have bad: "eval_internal list_world (Suc 0) 0 (Sym ''b'') start_state = Ok ?bad"
    by code_simp
  have be: "error ?bad \<noteq> None" by simp
  have p: "error (start_state\<lparr>stack := [IntV 7]\<rparr>) = None"
    "stack (start_state\<lparr>stack := [IntV 7]\<rparr>) = IntV 7 # []"
    "length ([] :: obj list) < STACK_SIZE list_world"
    "global_env (start_state\<lparr>stack := [IntV 7]\<rparr>) < length (heap (start_state\<lparr>stack := [IntV 7]\<rparr>))"
    "global_env (start_state\<lparr>stack := [IntV 7]\<rparr>) = 0"
    by (simp_all add: start_state_def list_world_def)
  from def_global [OF e, of list_world "Suc 0" 0 "IntV 7" "start_state\<lparr>stack := [IntV 7]\<rparr>"
      "''a''" "Cell Null Null" "IntV 7" "[]"] ok p
  have one: "eval_internal list_world (Suc (Suc 0)) 0 (mk_list [Sym ''def'', Sym ''a'', IntV 7]) start_state
     = Ok (global_env_extend (Sym ''a'') (IntV 7) (start_state\<lparr>stack := [IntV 7]\<rparr>))"
    and look: "env_lookup (global_env_extend (Sym ''a'') (IntV 7) (start_state\<lparr>stack := [IntV 7]\<rparr>)) 0
        (Sym ''a'') = IntV 7"
    by auto
  from def_global [OF e, of list_world "Suc 0" 0 "Sym ''b''" ?bad "''a''" "Cell Null Null"] bad be
  have two: "eval_internal list_world (Suc (Suc 0)) 0 (mk_list [Sym ''def'', Sym ''a'', Sym ''b'']) start_state
     = Ok ?bad"
    by auto
  from one look two show ?thesis by simp
qed

section \<open>Quote\<close>

text \<open>
  Claim C9. Evaluating \<open>(quote)\<close> with no argument is meant to yield Nil: the quote branch
  tests \<open>o->cdr == nil\<close> and pushes \<open>nil\<close>. The test is pointer identity with the one object
  \<open>nil\<close>, and the cdr of a one-element list is an empty cell of its own, so for \<open>(quote)\<close> the
  test fails and \<open>o->cdr->car\<close> is pushed: eval returns the NULL pointer, which is not \<open>nil\<close>,
  with no error.
\<close>

theorem quote_empty_returns_null:
  "outcome (eval list_world 1 0 (mk_list [Sym ''quote'']) start_state) = Ok (Null, None)
   \<and> Null \<noteq> nil"
proof -
  have "outcome (eval list_world 1 0 (mk_list [Sym ''quote'']) start_state) = Ok (Null, None)"
    by code_simp
  then show ?thesis by (simp add: nil_def)
qed

text \<open>
  The other half of the claim holds: for every form X (an object, not the NULL pointer),
  evaluating \<open>(quote X)\<close> yields X itself, unevaluated, whatever follows X in the form, and
  no cell of the state changes but the three eval resets; and \<open>(quote)\<close> does yield \<open>nil\<close>
  when the cdr of the form is the object \<open>nil\<close> itself.
\<close>

lemma quote_returns_form:
  assumes "0 < STACK_SIZE w" and "X \<noteq> Null"
  shows "eval w (Suc n) env (Cell (Sym ''quote'') (Cell X rest)) st = Ok (X, reset_cells st)
       \<and> eval w (Suc n) env (Cell (Sym ''quote'') NilCell) st = Ok (nil, reset_cells st)"
  using assms
  by (simp add: eval_def eval_internal_body_def eval_list_def eval_list_quote_def nil_def
      stack_push_def stack_pop_def reset_cells_def)

section \<open>reset! on an unbound symbol\<close>

text \<open>
  Claim C10. For every \<open>(reset! s e)\<close> where the symbol s has no binding in the environment
  chain, the evaluator prints the diagnostic, pushes Nil and latches no error, through the
  same branch as a binding whose key slot is not a symbol; e is not evaluated: the result
  is the same for every evaluator \<open>ev\<close> the branch could call and for everything that
  follows s in the form, and nothing but the output and the stack changes.
\<close>

theorem reset_unbound:
  assumes "env_lookup_binding st env (Sym name) = None"
    and "error st = None" and "length (stack st) < STACK_SIZE w"
  shows "eval_internal_body w ev k env (Cell (Sym ''reset!'') (Cell (Sym name) rest)) st =
      Ok (st\<lparr>out := out st @
               [Text (''Can't reset! binding '' @ [CHR 0x27]), Text name,
                Text ([CHR 0x27] @ '', it's '' @ [CHR 0x27]), Rendered nil,
                Text [CHR 0x27, CHR 0x0A]],
             stack := nil # stack st\<rparr>)
    \<and> eval_internal w (Suc n) env (Cell (Sym ''reset!'') (Cell (Sym name) rest)) st =
      eval_internal_body w ev k env (Cell (Sym ''reset!'') (Cell (Sym name) rest)) st"
  using assms
  by (simp add: eval_internal_body_def eval_list_def eval_list_reset_def binding_at_def nil_def
      stack_push_def)

theorem reset_unbound_witness:
  "env_lookup_binding start_state 0 (Sym ''zz'') = None
   \<and> eval_internal list_world 1 0 (mk_list [Sym ''reset!'', Sym ''zz'', IntV 1]) start_state =
      Ok (start_state\<lparr>out :=
               [Text (''Can't reset! binding '' @ [CHR 0x27]), Text ''zz'',
                Text ([CHR 0x27] @ '', it's '' @ [CHR 0x27]), Rendered nil,
                Text [CHR 0x27, CHR 0x0A]],
             stack := [nil]\<rparr>)"
proof -
  have nb: "env_lookup_binding start_state 0 (Sym ''zz'') = None"
    by (simp add: env_lookup_binding_def start_state_def obj_eq_def)
  have e: "error start_state = None" and r: "length (stack start_state) < STACK_SIZE list_world"
    by (simp_all add: start_state_def list_world_def)
  show ?thesis
    using nb reset_unbound [OF nb e r, of "eval_internal list_world 0" 0 "mk_list [IntV 1]" 0]
    by (simp add: start_state_def)
qed

end
